theory Spec2Isabelle
  imports Complex_Main
begin

section \<open>The stream ingestion operations of modules/utils.js\<close>

subsection \<open>Values shared by the operations\<close>

text \<open>
  A chunk is a Node Buffer: a finite sequence of bytes. HOL's \<open>char\<close> is a byte, so a
  buffer is a \<open>string\<close> and \<open>chunk.length\<close> is \<open>length\<close>.
\<close>

type_synonym chunk = string

text \<open>
  Modelled from the spec: the module \<^verbatim>\<open>./errors\<close>, which utils.js requires and whose
  source is missing. Its \<^verbatim>\<open>MaxLengthExceededError\<close> is built from the configured limit and
  carries it. \<open>SystemError\<close> stands for every other error object: the argument of a
  stream's \<^verbatim>\<open>error\<close> event, or an exception raised by the Node runtime.
\<close>

datatype error = MaxLengthExceededError int | SystemError string

text \<open>
  \<^verbatim>\<open>when.defer()\<close>: a deferred is pending until the first call of \<^verbatim>\<open>resolve\<close> or \<^verbatim>\<open>reject\<close>;
  calls on a settled deferred are ignored.
\<close>

datatype 'a promise = Pending | Resolved 'a | Rejected error

definition resolve :: "'a \<Rightarrow> 'a promise \<Rightarrow> 'a promise" where
  "resolve v p = (case p of Pending \<Rightarrow> Resolved v | _ \<Rightarrow> p)"

definition reject :: "error \<Rightarrow> 'a promise \<Rightarrow> 'a promise" where
  "reject e p = (case p of Pending \<Rightarrow> Rejected e | _ \<Rightarrow> p)"

definition settled :: "'a promise \<Rightarrow> bool" where
  "settled p = (case p of Pending \<Rightarrow> False | _ \<Rightarrow> True)"

text \<open>The events a readable stream emits to the handlers registered with \<^verbatim>\<open>stream.on\<close>.\<close>

datatype event = Data chunk | End | Error error

text \<open>Every operation owns one deferred, the variable \<^verbatim>\<open>value\<close> of the source.\<close>

record 'a operation =
  deferred :: "'a promise"

subsection \<open>bufferStream\<close>

text \<open>
  The closure of \<^verbatim>\<open>bufferStream\<close>: the deferred, \<^verbatim>\<open>chunks\<close> and \<^verbatim>\<open>length\<close>. The argument
  \<^verbatim>\<open>maxLength\<close> is a number or absent; JavaScript reads absent and \<open>0\<close> as false.
\<close>

record buffer_state = "chunk operation" +
  chunks :: "chunk list"
  length_total :: nat

definition bufferStream_init :: buffer_state where
  "bufferStream_init = \<lparr>deferred = Pending, chunks = [], length_total = 0\<rparr>"

definition buffer_on_data :: "int option \<Rightarrow> chunk \<Rightarrow> buffer_state \<Rightarrow> buffer_state" where
  "buffer_on_data maxLength chunk s =
     (let s1 = s\<lparr>length_total := length_total s + length chunk\<rparr> in
      case maxLength of
        None \<Rightarrow> s1\<lparr>chunks := chunks s1 @ [chunk]\<rparr>
      | Some m \<Rightarrow>
          if m \<noteq> 0 \<and> int (length_total s1) > m
          then s1\<lparr>deferred := reject (MaxLengthExceededError m) (deferred s1)\<rparr>
          else s1\<lparr>chunks := chunks s1 @ [chunk]\<rparr>)"

definition buffer_on_end :: "buffer_state \<Rightarrow> buffer_state" where
  "buffer_on_end s = s\<lparr>deferred := resolve (concat (chunks s)) (deferred s)\<rparr>"

definition buffer_on_error :: "error \<Rightarrow> buffer_state \<Rightarrow> buffer_state" where
  "buffer_on_error e s = s\<lparr>deferred := reject e (deferred s)\<rparr>"

fun buffer_deliver :: "int option \<Rightarrow> event \<Rightarrow> buffer_state \<Rightarrow> buffer_state" where
  "buffer_deliver maxLength (Data chunk) s = buffer_on_data maxLength chunk s"
| "buffer_deliver maxLength End s = buffer_on_end s"
| "buffer_deliver maxLength (Error e) s = buffer_on_error e s"

fun buffer_run :: "int option \<Rightarrow> event list \<Rightarrow> buffer_state \<Rightarrow> buffer_state" where
  "buffer_run maxLength [] s = s"
| "buffer_run maxLength (e # es) s = buffer_run maxLength es (buffer_deliver maxLength e s)"

text \<open>
  \<^verbatim>\<open>bufferStream(stream, maxLength)\<close> after the stream has emitted the events \<open>evs\<close>, in
  this order.
\<close>

definition bufferStream :: "int option \<Rightarrow> event list \<Rightarrow> buffer_state" where
  "bufferStream maxLength evs = buffer_run maxLength evs bufferStream_init"

text \<open>
  The condition under which the data handler takes its \<^verbatim>\<open>else\<close> branch when the running
  total is \<open>n\<close>: no limit, a limit of \<open>0\<close>, or a total that does not exceed the limit.
\<close>

definition within_limit :: "int option \<Rightarrow> nat \<Rightarrow> bool" where
  "within_limit maxLength n =
     (case maxLength of None \<Rightarrow> True | Some m \<Rightarrow> m = 0 \<or> int n \<le> m)"

text \<open>
  The reading of the specification, to compare with the handlers: the first event that
  decides (an error, a chunk that breaches the limit, the end) fixes the outcome, and
  nothing after it is looked at. \<open>seen\<close> are the chunks received so far.
\<close>

fun first_event_wins_buffer :: "int option \<Rightarrow> chunk list \<Rightarrow> event list \<Rightarrow> chunk promise" where
  "first_event_wins_buffer maxLength seen [] = Pending"
| "first_event_wins_buffer maxLength seen (Error e # evs) = Rejected e"
| "first_event_wins_buffer maxLength seen (End # evs) = Resolved (concat seen)"
| "first_event_wins_buffer maxLength seen (Data c # evs) =
     (case maxLength of
        None \<Rightarrow> first_event_wins_buffer maxLength (seen @ [c]) evs
      | Some m \<Rightarrow>
          if m \<noteq> 0 \<and> int (length (concat (seen @ [c]))) > m
          then Rejected (MaxLengthExceededError m)
          else first_event_wins_buffer maxLength (seen @ [c]) evs)"

subsection \<open>makeChecksum\<close>

text \<open>
  An operation that runs inside the Node process can also die: an exception that leaves
  an event handler, or an \<^verbatim>\<open>error\<close> event with no listener, is uncaught and ends the
  process. \<open>uncaught\<close> records it; no event is delivered afterwards.
\<close>

record 'a process = "'a operation" +
  uncaught :: "error option"

text \<open>
  The hash object of Node's \<^verbatim>\<open>crypto\<close>: it collects the data it is updated with until
  \<^verbatim>\<open>digest\<close> is called, and refuses \<^verbatim>\<open>update\<close> and \<^verbatim>\<open>digest\<close> afterwards.
  Which algorithm names \<^verbatim>\<open>crypto.createHash\<close> accepts, and the digest function itself,
  belong to the library: they are the parameters \<open>supported\<close> and \<open>hexdigest\<close>.
\<close>

datatype hash_object = Hashing string | Digested

definition createHash :: "(string \<Rightarrow> bool) \<Rightarrow> string \<Rightarrow> error + hash_object" where
  "createHash supported algorithm =
     (if supported algorithm then Inr (Hashing [])
      else Inl (SystemError ''Digest method not supported''))"

definition hash_object_update :: "chunk \<Rightarrow> hash_object \<Rightarrow> error + hash_object" where
  "hash_object_update chunk h =
     (case h of
        Hashing d \<Rightarrow> Inr (Hashing (d @ chunk))
      | Digested \<Rightarrow> Inl (SystemError ''Digest already called''))"

definition hash_object_digest :: "(string \<Rightarrow> string) \<Rightarrow> hash_object \<Rightarrow> error + string \<times> hash_object" where
  "hash_object_digest hex h =
     (case h of
        Hashing d \<Rightarrow> Inr (hex d, Digested)
      | Digested \<Rightarrow> Inl (SystemError ''Digest already called''))"

record checksum_state = "string process" +
  hash :: hash_object

definition checksum_on_data :: "chunk \<Rightarrow> checksum_state \<Rightarrow> checksum_state" where
  "checksum_on_data chunk s =
     (case hash_object_update chunk (hash s) of
        Inl e \<Rightarrow> s\<lparr>uncaught := Some e\<rparr>
      | Inr h \<Rightarrow> s\<lparr>hash := h\<rparr>)"

definition checksum_on_end :: "(string \<Rightarrow> string) \<Rightarrow> checksum_state \<Rightarrow> checksum_state" where
  "checksum_on_end hex s =
     (case hash_object_digest hex (hash s) of
        Inl e \<Rightarrow> s\<lparr>uncaught := Some e\<rparr>
      | Inr (d, h) \<Rightarrow> s\<lparr>hash := h, deferred := resolve d (deferred s)\<rparr>)"

definition checksum_on_error :: "error \<Rightarrow> checksum_state \<Rightarrow> checksum_state" where
  "checksum_on_error e s = s\<lparr>deferred := reject e (deferred s)\<rparr>"

text \<open>\<open>None\<close>: the event cannot be delivered, the process has ended.\<close>

definition checksum_deliver ::
  "(string \<Rightarrow> string) \<Rightarrow> event \<Rightarrow> checksum_state \<Rightarrow> checksum_state option" where
  "checksum_deliver hex ev s =
     (if uncaught s \<noteq> None then None
      else Some (case ev of
        Data chunk \<Rightarrow> checksum_on_data chunk s
      | End \<Rightarrow> checksum_on_end hex s
      | Error e \<Rightarrow> checksum_on_error e s))"

fun checksum_run ::
  "(string \<Rightarrow> string) \<Rightarrow> event list \<Rightarrow> checksum_state \<Rightarrow> checksum_state option" where
  "checksum_run hex [] s = Some s"
| "checksum_run hex (ev # evs) s =
     (case checksum_deliver hex ev s of None \<Rightarrow> None | Some s' \<Rightarrow> checksum_run hex evs s')"

definition checksum_init :: "hash_object \<Rightarrow> checksum_state" where
  "checksum_init h = \<lparr>deferred = Pending, uncaught = None, hash = h\<rparr>"

text \<open>
  A call of \<^verbatim>\<open>makeChecksum(file, algorithm)\<close>, followed by the events \<open>evs\<close> of the read
  stream. \<open>opened\<close> lists the files the call has opened with \<^verbatim>\<open>fs.createReadStream\<close>;
  \<open>outcome\<close> is the exception the call itself throws, or the state of the operation
  after the events. An absent algorithm and the empty string are both false for
  \<^verbatim>\<open>algorithm || 'md5'\<close>.
\<close>

record checksum_call =
  opened :: "string list"
  outcome :: "error + checksum_state option"

definition algorithm_or_md5 :: "string option \<Rightarrow> string" where
  "algorithm_or_md5 algorithm =
     (case algorithm of None \<Rightarrow> ''md5'' | Some a \<Rightarrow> if a = [] then ''md5'' else a)"

definition makeChecksum ::
  "(string \<Rightarrow> bool) \<Rightarrow> (string \<Rightarrow> string \<Rightarrow> string) \<Rightarrow> string \<Rightarrow> string option \<Rightarrow> event list
    \<Rightarrow> checksum_call" where
  "makeChecksum supported hexdigest file algorithm evs =
     (let algorithm1 = algorithm_or_md5 algorithm
      in case createHash supported algorithm1 of
           Inl e \<Rightarrow> \<lparr>opened = [], outcome = Inl e\<rparr>
         | Inr h \<Rightarrow>
             \<lparr>opened = [file],
              outcome = Inr (checksum_run (hexdigest algorithm1) evs (checksum_init h))\<rparr>)"

text \<open>The specification's reading for the checksum: the first of error and end decides.\<close>

fun first_event_wins_checksum :: "(string \<Rightarrow> string) \<Rightarrow> chunk list \<Rightarrow> event list \<Rightarrow> string promise" where
  "first_event_wins_checksum hex seen [] = Pending"
| "first_event_wins_checksum hex seen (Error e # evs) = Rejected e"
| "first_event_wins_checksum hex seen (End # evs) = Resolved (hex (concat seen))"
| "first_event_wins_checksum hex seen (Data c # evs) = first_event_wins_checksum hex (seen @ [c]) evs"

subsection \<open>makeTemporaryPath\<close>

text \<open>
  What the function reads from its surroundings: \<^verbatim>\<open>os.tmpDir()\<close>, \<^verbatim>\<open>process.pid\<close>, the
  fields of \<^verbatim>\<open>new Date()\<close> (\<^verbatim>\<open>getYear\<close> counts from 1900, \<^verbatim>\<open>getMonth\<close> from 0), and
  \<^verbatim>\<open>Math.random()\<close>, a double in the interval from 0 to 1 (1 excluded), given by its value
  as a rational number. \<open>fraction_digits\<close> belongs to the engine: the digits that
  \<^verbatim>\<open>toString(36)\<close> writes after the point for a double that is not an integer, which the
  language leaves to the implementation.
\<close>

record environment =
  tmpDir :: string
  pid :: nat
  getYear :: int
  getMonth :: nat
  getDate :: nat
  math_random :: rat
  fraction_digits :: "rat \<Rightarrow> nat list"

text \<open>JavaScript's conversion of an integer to a string, as \<^verbatim>\<open>'' + n\<close> and \<^verbatim>\<open>join\<close> do it.\<close>

definition digit :: "nat \<Rightarrow> char" where
  "digit n = ''0123456789'' ! (n mod 10)"

fun show_nat :: "nat \<Rightarrow> string" where
  "show_nat n = (if n < 10 then [digit n] else show_nat (n div 10) @ [digit n])"

declare show_nat.simps [simp del]

definition show_int :: "int \<Rightarrow> string" where
  "show_int i = (if i < 0 then CHR ''-'' # show_nat (nat (- i)) else show_nat (nat i))"

text \<open>
  The double nearest to a rational \<open>x \<ge> 1\<close>, ties to the even significand: a double
  has 53 significant bits, so with \<open>2 ^ e \<le> x < 2 ^ (e + 1)\<close> it is a multiple of
  \<open>2 ^ (e - 52)\<close>. This is the rounding of the addition in
  \<^verbatim>\<open>Math.random() * 0x100000000 + 1\<close>; the multiplication by a power of two is exact.
\<close>

fun bit_length :: "nat \<Rightarrow> nat" where
  "bit_length n = (if n = 0 then 0 else Suc (bit_length (n div 2)))"

declare bit_length.simps [simp del]

definition round_half_even :: "rat \<Rightarrow> int" where
  "round_half_even q =
     (let f = \<lfloor>q\<rfloor>; d = q - of_int f
      in if d < 1 / 2 then f else if 1 / 2 < d then f + 1 else if even f then f else f + 1)"

definition to_double :: "rat \<Rightarrow> rat" where
  "to_double x =
     (let e = bit_length (nat \<lfloor>x\<rfloor>) - 1
      in if e \<le> 52 then of_int (round_half_even (x * 2 ^ (52 - e))) / 2 ^ (52 - e)
         else of_int (round_half_even (x / 2 ^ (e - 52))) * 2 ^ (e - 52))"

text \<open>
  \<^verbatim>\<open>Number.prototype.toString(36)\<close>: the integer part in base 36 with the digits \<open>0\<close> to
  \<open>9\<close> and \<open>a\<close> to \<open>z\<close>; for a number that is not an integer, a point and the digits the
  engine chooses.
\<close>

definition digit36 :: "nat \<Rightarrow> char" where
  "digit36 n = ''0123456789abcdefghijklmnopqrstuvwxyz'' ! (n mod 36)"

fun show_base36 :: "nat \<Rightarrow> string" where
  "show_base36 n = (if n < 36 then [digit36 n] else show_base36 (n div 36) @ [digit36 n])"

declare show_base36.simps [simp del]

definition render36 :: "(rat \<Rightarrow> nat list) \<Rightarrow> rat \<Rightarrow> string" where
  "render36 fraction x =
     show_base36 (nat \<lfloor>x\<rfloor>)
       @ (if x = of_int \<lfloor>x\<rfloor> then [] else CHR ''.'' # map digit36 (fraction x))"

definition toString36 :: "(rat \<Rightarrow> nat list) \<Rightarrow> rat \<Rightarrow> string" where
  "toString36 fraction x =
     (if x < 0 then CHR ''-'' # render36 fraction (- x) else render36 fraction x)"

text \<open>The variable \<^verbatim>\<open>random\<close>: \<^verbatim>\<open>(Math.random() * 0x100000000 + 1).toString(36)\<close>.\<close>

definition random_component :: "environment \<Rightarrow> string" where
  "random_component env =
     toString36 (fraction_digits env) (to_double (math_random env * 4294967296 + 1))"

text \<open>\<^verbatim>\<open>Array.prototype.join\<close> with a separator, and \<^verbatim>\<open>String.prototype.split\<close> at \<open>/\<close>.\<close>

fun join_with :: "string \<Rightarrow> string list \<Rightarrow> string" where
  "join_with sep [] = []"
| "join_with sep [x] = x"
| "join_with sep (x # y # ys) = x @ sep @ join_with sep (y # ys)"

fun split_slash :: "string \<Rightarrow> string list" where
  "split_slash [] = [[]]"
| "split_slash (c # cs) =
     (if c = CHR ''/'' then [] # split_slash cs
      else (case split_slash cs of [] \<Rightarrow> [[c]] | w # ws \<Rightarrow> (c # w) # ws))"

text \<open>
  \<^verbatim>\<open>path.join\<close> of Node on a POSIX platform: the non-empty arguments are joined with
  \<open>/\<close> and the result is normalised. \<open>normalizeArray\<close> walks the segments from the last to
  the first, drops \<open>.\<close>, and lets each \<open>..\<close> cancel the nearest segment before it.
\<close>

definition normalize_step :: "string \<Rightarrow> nat \<times> string list \<Rightarrow> nat \<times> string list" where
  "normalize_step part st =
     (case st of (up, kept) \<Rightarrow>
        if part = ''.'' then (up, kept)
        else if part = ''..'' then (up + 1, kept)
        else if up > 0 then (up - 1, kept)
        else (up, part # kept))"

definition normalizeArray :: "string list \<Rightarrow> bool \<Rightarrow> string list" where
  "normalizeArray parts allowAboveRoot =
     (case foldr normalize_step parts (0, []) of (up, kept) \<Rightarrow>
        if allowAboveRoot then replicate up ''..'' @ kept else kept)"

definition normalize :: "string \<Rightarrow> string" where
  "normalize p =
     (let isAbsolute = (case p of [] \<Rightarrow> False | c # _ \<Rightarrow> c = CHR ''/'');
          trailingSlash = (case rev p of [] \<Rightarrow> False | c # _ \<Rightarrow> c = CHR ''/'');
          p1 = join_with ''/'' (normalizeArray (filter (\<lambda>x. x \<noteq> []) (split_slash p)) (\<not> isAbsolute));
          p2 = (if p1 = [] \<and> \<not> isAbsolute then ''.'' else p1);
          p3 = (if p2 \<noteq> [] \<and> trailingSlash then p2 @ ''/'' else p2)
      in (if isAbsolute then ''/'' else []) @ p3)"

definition path_join :: "string list \<Rightarrow> string" where
  "path_join paths = normalize (join_with ''/'' (filter (\<lambda>p. p \<noteq> []) paths))"

definition makeTemporaryPath :: "environment \<Rightarrow> string option \<Rightarrow> string" where
  "makeTemporaryPath env prefix =
     (let prefix1 = (case prefix of None \<Rightarrow> [] | Some p \<Rightarrow> p);
          date = show_int (getYear env) @ show_nat (getMonth env) @ show_nat (getDate env);
          random = random_component env;
          name = concat [prefix1, date, ''-'', show_nat (pid env), ''-'', random]
      in path_join [tmpDir env, name])"

text \<open>The name the function builds before it joins it to the temporary directory.\<close>

definition temporary_name :: "environment \<Rightarrow> string \<Rightarrow> string" where
  "temporary_name env prefix1 =
     prefix1 @ show_int (getYear env) @ show_nat (getMonth env) @ show_nat (getDate env)
       @ ''-'' @ show_nat (pid env) @ ''-'' @ random_component env"

text \<open>A path segment that normalisation leaves alone.\<close>

definition plain_segment :: "string \<Rightarrow> bool" where
  "plain_segment x = (x \<noteq> [] \<and> CHR ''/'' \<notin> set x \<and> x \<noteq> ''.'' \<and> x \<noteq> ''..'')"

text \<open>
  A directory as \<^verbatim>\<open>path.join\<close> reads it: whether it is absolute, and its segments after
  normalisation.
\<close>

definition is_absolute :: "string \<Rightarrow> bool" where
  "is_absolute p = (case p of [] \<Rightarrow> False | c # _ \<Rightarrow> c = CHR ''/'')"

definition directory_segments :: "string \<Rightarrow> string list" where
  "directory_segments d =
     normalizeArray (filter (\<lambda>x. x \<noteq> []) (split_slash d)) (\<not> is_absolute d)"

subsection \<open>streamToDisk\<close>

text \<open>
  The part handed to \<^verbatim>\<open>streamToDisk\<close>: a readable stream with the declared fields
  \<^verbatim>\<open>filename\<close> and \<^verbatim>\<open>type\<close>, either of which may be absent. \<open>info\<close> is the object the
  promise is resolved with.
\<close>

record part =
  filename :: "string option"
  part_type :: "string option"

record info =
  path :: string
  name :: "string option"
  type :: "string option"
  size_info :: nat

text \<open>
  The operation and its write stream. The deferred is resolved with the object \<^verbatim>\<open>info\<close>
  itself, so its value is \<open>()\<close> and the fields are read from \<open>info\<close>. Of the stream
  opened by \<^verbatim>\<open>fs.createWriteStream\<close> the state keeps: \<open>queue\<close>, the chunks handed to
  \<^verbatim>\<open>stream.write\<close> that the storage layer has not acknowledged yet, oldest first;
  \<open>destination\<close>, the path the stream was opened with; \<open>file_content\<close>, the bytes that
  have reached the file at that path; \<open>ending\<close>, whether \<^verbatim>\<open>stream.end\<close> was called;
  \<open>finished\<close>, whether the stream has emitted \<^verbatim>\<open>finish\<close>, that is, has flushed everything
  and called the callback of \<^verbatim>\<open>end\<close>; \<open>fd_closed\<close>, whether the file descriptor has been
  closed, which the stream does only after \<^verbatim>\<open>finish\<close>.
\<close>

record disk_state = "unit process" +
  info :: info
  destination :: string
  queue :: "chunk list"
  file_content :: string
  ending :: bool
  finished :: bool
  fd_closed :: bool

text \<open>
  Besides the events of the part, the write stream reports to the operation: \<open>Flushed\<close>,
  the oldest queued chunk is on disk and the callback given to \<^verbatim>\<open>write\<close> runs;
  \<open>WriteFailed\<close>, writing the oldest queued chunk failed; \<open>Finish\<close>, the stream emits
  \<^verbatim>\<open>finish\<close> and the callback given to \<^verbatim>\<open>end\<close> runs; \<open>Closed\<close>, the file descriptor has
  been closed.
\<close>

datatype disk_event = Part event | Flushed | WriteFailed error | Finish | Closed

text \<open>
  \<^verbatim>\<open>stream.write(chunk, callback)\<close> queues the chunk; on a stream that was ended it raises
  an \<^verbatim>\<open>error\<close> event, for which \<^verbatim>\<open>streamToDisk\<close> registers no listener. A second
  \<^verbatim>\<open>stream.end\<close> is ignored.
\<close>

definition stream_write :: "chunk \<Rightarrow> disk_state \<Rightarrow> disk_state" where
  "stream_write chunk s =
     (if ending s then s\<lparr>uncaught := Some (SystemError ''write after end'')\<rparr>
      else s\<lparr>queue := queue s @ [chunk]\<rparr>)"

definition stream_end :: "disk_state \<Rightarrow> disk_state" where
  "stream_end s = (if ending s then s else s\<lparr>ending := True\<rparr>)"

definition disk_on_data :: "chunk \<Rightarrow> disk_state \<Rightarrow> disk_state" where
  "disk_on_data chunk s =
     stream_write chunk (s\<lparr>info := (info s)\<lparr>size_info := size_info (info s) + length chunk\<rparr>\<rparr>)"

definition disk_on_end :: "disk_state \<Rightarrow> disk_state" where
  "disk_on_end s = stream_end s"

definition disk_on_error :: "error \<Rightarrow> disk_state \<Rightarrow> disk_state" where
  "disk_on_error e s = s\<lparr>deferred := reject e (deferred s)\<rparr>"

text \<open>
  The callback given to \<^verbatim>\<open>write\<close> is empty: it changes nothing, whether the write
  succeeded or not. A failed write also raises the stream's \<^verbatim>\<open>error\<close> event, which has no
  listener. The stream emits \<^verbatim>\<open>finish\<close> once \<^verbatim>\<open>end\<close> was called and every queued chunk is
  acknowledged; the callback given to \<^verbatim>\<open>end\<close> runs then and resolves the deferred. The
  file descriptor is still open at that moment.
\<close>

definition disk_flushed :: "disk_state \<Rightarrow> disk_state option" where
  "disk_flushed s =
     (case queue s of
        [] \<Rightarrow> None
      | c # cs \<Rightarrow> Some (s\<lparr>queue := cs, file_content := file_content s @ c\<rparr>))"

definition disk_write_failed :: "error \<Rightarrow> disk_state \<Rightarrow> disk_state option" where
  "disk_write_failed e s =
     (case queue s of
        [] \<Rightarrow> None
      | c # cs \<Rightarrow> Some (s\<lparr>queue := cs, uncaught := Some e\<rparr>))"

definition disk_finish :: "disk_state \<Rightarrow> disk_state option" where
  "disk_finish s =
     (if ending s \<and> queue s = [] \<and> \<not> finished s
      then Some (s\<lparr>finished := True, deferred := resolve () (deferred s)\<rparr>)
      else None)"

text \<open>
  The stream closes the descriptor after it has finished; \<^verbatim>\<open>streamToDisk\<close> registers no
  handler for it.
\<close>

definition disk_closed :: "disk_state \<Rightarrow> disk_state option" where
  "disk_closed s =
     (if finished s \<and> \<not> fd_closed s then Some (s\<lparr>fd_closed := True\<rparr>) else None)"

text \<open>\<open>None\<close>: the event cannot happen in this state.\<close>

definition disk_deliver :: "disk_event \<Rightarrow> disk_state \<Rightarrow> disk_state option" where
  "disk_deliver ev s =
     (if uncaught s \<noteq> None then None
      else case ev of
        Part (Data chunk) \<Rightarrow> Some (disk_on_data chunk s)
      | Part End \<Rightarrow> Some (disk_on_end s)
      | Part (Error e) \<Rightarrow> Some (disk_on_error e s)
      | Flushed \<Rightarrow> disk_flushed s
      | WriteFailed e \<Rightarrow> disk_write_failed e s
      | Finish \<Rightarrow> disk_finish s
      | Closed \<Rightarrow> disk_closed s)"

fun disk_run :: "disk_event list \<Rightarrow> disk_state \<Rightarrow> disk_state option" where
  "disk_run [] s = Some s"
| "disk_run (ev # evs) s =
     (case disk_deliver ev s of None \<Rightarrow> None | Some s' \<Rightarrow> disk_run evs s')"

text \<open>\<^verbatim>\<open>streamToDisk(part, filePrefix)\<close> when it returns its promise, and after a schedule.\<close>

definition streamToDisk_init :: "environment \<Rightarrow> part \<Rightarrow> string option \<Rightarrow> disk_state" where
  "streamToDisk_init env p filePrefix =
     (let temporaryPath = makeTemporaryPath env filePrefix;
          info0 = \<lparr>path = temporaryPath, name = filename p, type = part_type p, size_info = 0\<rparr>
      in \<lparr>deferred = Pending, uncaught = None, info = info0, destination = path info0,
          queue = [], file_content = [], ending = False, finished = False,
          fd_closed = False\<rparr>)"

definition streamToDisk ::
  "environment \<Rightarrow> part \<Rightarrow> string option \<Rightarrow> disk_event list \<Rightarrow> disk_state option" where
  "streamToDisk env p filePrefix evs = disk_run evs (streamToDisk_init env p filePrefix)"

text \<open>The events of the part within a schedule, and the chunks among them.\<close>

fun part_events :: "disk_event list \<Rightarrow> event list" where
  "part_events [] = []"
| "part_events (Part e # evs) = e # part_events evs"
| "part_events (_ # evs) = part_events evs"

fun data_chunks :: "event list \<Rightarrow> chunk list" where
  "data_chunks [] = []"
| "data_chunks (Data c # evs) = c # data_chunks evs"
| "data_chunks (_ # evs) = data_chunks evs"


text \<open>
  The rule the handlers of the persister follow, to compare with them: the first event of
  the schedule that is an error of the part or the callback of \<^verbatim>\<open>end\<close> decides. The
  \<^verbatim>\<open>end\<close> event of the part decides nothing by itself.
\<close>

fun first_error_or_finish :: "disk_event list \<Rightarrow> unit promise" where
  "first_error_or_finish [] = Pending"
| "first_error_or_finish (Part (Error e) # evs) = Rejected e"
| "first_error_or_finish (Finish # evs) = Resolved ()"
| "first_error_or_finish (_ # evs) = first_error_or_finish evs"


section \<open>Properties of bufferStream\<close>

lemma resolve_settled [simp]: "settled p \<Longrightarrow> resolve v p = p"
  by (cases p) (simp_all add: settled_def resolve_def)

lemma reject_settled [simp]: "settled p \<Longrightarrow> reject e p = p"
  by (cases p) (simp_all add: settled_def reject_def)

lemma resolve_Pending [simp]: "resolve v Pending = Resolved v"
  by (simp add: resolve_def)

lemma reject_Pending [simp]: "reject e Pending = Rejected e"
  by (simp add: reject_def)

lemma settled_simps [simp]:
  "\<not> settled Pending" "settled (Resolved v)" "settled (Rejected e)"
  by (simp_all add: settled_def)

lemma buffer_run_append:
  "buffer_run m (xs @ ys) s = buffer_run m ys (buffer_run m xs s)"
  by (induction xs arbitrary: s) simp_all

lemma buffer_deliver_settled:
  "settled (deferred s) \<Longrightarrow> deferred (buffer_deliver m e s) = deferred s"
  by (cases e)
     (simp_all add: buffer_on_data_def buffer_on_end_def buffer_on_error_def Let_def
        split: option.splits)

lemma buffer_run_settled:
  "settled (deferred s) \<Longrightarrow> deferred (buffer_run m evs s) = deferred s"
proof (induction evs arbitrary: s)
  case Nil
  then show ?case by simp
next
  case (Cons e evs)
  from Cons.prems have "settled (deferred (buffer_deliver m e s))"
    by (simp add: buffer_deliver_settled)
  with Cons.IH [of "buffer_deliver m e s"] Cons.prems show ?case
    by (simp add: buffer_deliver_settled)
qed

lemma buffer_deliver_length_mono:
  "length_total s \<le> length_total (buffer_deliver m e s)"
  by (cases e)
     (simp_all add: buffer_on_data_def buffer_on_end_def buffer_on_error_def Let_def
        split: option.splits)

lemma buffer_deliver_over_limit:
  assumes "m \<noteq> 0" "int (length_total s) > m"
  shows "chunks (buffer_deliver (Some m) e s) = chunks s"
  using assms
  by (cases e) (simp_all add: buffer_on_data_def buffer_on_end_def buffer_on_error_def Let_def)

lemma buffer_run_over_limit:
  assumes "m \<noteq> 0" "int (length_total s) > m"
  shows "chunks (buffer_run (Some m) evs s) = chunks s"
  using assms
proof (induction evs arbitrary: s)
  case Nil
  then show ?case by simp
next
  case (Cons e evs)
  have "length_total s \<le> length_total (buffer_deliver (Some m) e s)"
    by (rule buffer_deliver_length_mono)
  with Cons.prems have "int (length_total (buffer_deliver (Some m) e s)) > m"
    by linarith
  with Cons.IH [of "buffer_deliver (Some m) e s"] Cons.prems show ?case
    by (simp add: buffer_deliver_over_limit)
qed

text \<open>Data events that stay within the limit, or arrive with no limit, are all appended.\<close>

lemma buffer_on_data_within:
  "within_limit m (length_total s + length c) \<Longrightarrow>
   buffer_on_data m c s =
     s\<lparr>chunks := chunks s @ [c], length_total := length_total s + length c\<rparr>"
  by (auto simp: within_limit_def buffer_on_data_def Let_def split: option.splits)

lemma within_limit_mono: "within_limit m (a + b) \<Longrightarrow> within_limit m a"
  by (auto simp: within_limit_def split: option.splits)

lemma buffer_run_data_within:
  "within_limit m (length_total s + length (concat cs)) \<Longrightarrow>
   buffer_run m (map Data cs) s =
     s\<lparr>chunks := chunks s @ cs, length_total := length_total s + length (concat cs)\<rparr>"
proof (induction cs arbitrary: s)
  case Nil
  then show ?case by simp
next
  case (Cons c cs)
  from Cons.prems have w: "within_limit m (length_total s + length c)"
    using within_limit_mono [of m "length_total s + length c" "length (concat cs)"]
    by (simp add: add.assoc)
  let ?s1 = "s\<lparr>chunks := chunks s @ [c], length_total := length_total s + length c\<rparr>"
  from Cons.prems have "within_limit m (length_total ?s1 + length (concat cs))"
    by (simp add: add.assoc)
  from Cons.IH [OF this] w show ?case
    by (simp add: buffer_on_data_within add.assoc)
qed

lemma buffer_run_data_breach:
  assumes "m \<noteq> 0" "int (length_total s + length (concat cs)) > m"
    and "int (length_total s) \<le> m" "deferred s = Pending"
  shows "deferred (buffer_run (Some m) (map Data cs) s) = Rejected (MaxLengthExceededError m)"
  using assms
proof (induction cs arbitrary: s)
  case Nil
  then show ?case by simp
next
  case (Cons c cs)
  show ?case
  proof (cases "int (length_total s + length c) > m")
    case True
    with Cons.prems
    have "deferred (buffer_on_data (Some m) c s) = Rejected (MaxLengthExceededError m)"
      by (simp add: buffer_on_data_def Let_def)
    then show ?thesis
      by (simp add: buffer_run_settled)
  next
    case False
    then have w: "within_limit (Some m) (length_total s + length c)"
      by (simp add: within_limit_def)
    let ?s1 = "s\<lparr>chunks := chunks s @ [c], length_total := length_total s + length c\<rparr>"
    from Cons.prems have "int (length_total ?s1 + length (concat cs)) > m"
      by (simp add: add.assoc)
    moreover from Cons.prems have "deferred ?s1 = Pending" by simp
    moreover from False have "int (length_total ?s1) \<le> m" by simp
    ultimately have
      "deferred (buffer_run (Some m) (map Data cs) ?s1) = Rejected (MaxLengthExceededError m)"
      using Cons.IH [of ?s1] Cons.prems(1) by blast
    with w show ?thesis
      by (simp add: buffer_on_data_within)
  qed
qed

lemma buffer_run_length_total:
  "length_total (buffer_run m evs s) = length_total s + length (concat (data_chunks evs))"
proof (induction evs arbitrary: s)
  case Nil
  then show ?case by simp
next
  case (Cons e evs)
  then show ?case
    by (cases e)
       (simp_all add: buffer_on_data_def buffer_on_end_def buffer_on_error_def Let_def
          split: option.splits)
qed

lemma buffer_run_keeps_all:
  "int (length_total (buffer_run (Some m) evs s)) \<le> m \<Longrightarrow>
   chunks (buffer_run (Some m) evs s) = chunks s @ data_chunks evs"
proof (induction evs arbitrary: s)
  case Nil
  then show ?case by simp
next
  case (Cons e evs)
  let ?s1 = "buffer_deliver (Some m) e s"
  from Cons.prems have le: "int (length_total (buffer_run (Some m) evs ?s1)) \<le> m"
    by simp
  from Cons.IH [OF le]
  have run: "chunks (buffer_run (Some m) (e # evs) s) = chunks ?s1 @ data_chunks evs"
    by simp
  have "length_total ?s1 \<le> length_total (buffer_run (Some m) evs ?s1)"
    by (simp add: buffer_run_length_total)
  with le have small: "int (length_total ?s1) \<le> m"
    by linarith
  have "chunks ?s1 = chunks s @ data_chunks [e]"
  proof (cases e)
    case (Data c)
    have "length_total (buffer_on_data (Some m) c s) = length_total s + length c"
      by (simp add: buffer_on_data_def Let_def)
    with small Data have "int (length_total s + length c) \<le> m"
      by simp
    then show ?thesis
      using Data by (simp add: buffer_on_data_def Let_def)
  next
    case End
    then show ?thesis by (simp add: buffer_on_end_def)
  next
    case (Error x)
    then show ?thesis by (simp add: buffer_on_error_def)
  qed
  with run show ?case
    by (cases e) simp_all
qed

text \<open>
  Claim C1. With a configured maximum \<open>m > 0\<close>: as soon as the chunks received add up to
  more than \<open>m\<close> bytes, the promise of \<^verbatim>\<open>bufferStream\<close> is rejected with
  \<^verbatim>\<open>MaxLengthExceededError\<close> carrying the limit \<open>m\<close> itself, whatever the stream emits
  afterwards, so no buffer is delivered; and when the stream ends after chunks that add up
  to at most \<open>m\<close> bytes, the promise is resolved with their concatenation.
\<close>

theorem bufferStream_limit:
  assumes "0 < m"
  shows "(m < int (length (concat cs)) \<longrightarrow>
           deferred (bufferStream (Some m) (map Data cs @ rest)) =
             Rejected (MaxLengthExceededError m))
       \<and> (int (length (concat cs)) \<le> m \<longrightarrow>
           deferred (bufferStream (Some m) (map Data cs @ End # rest)) = Resolved (concat cs))"
proof (intro conjI impI)
  assume over: "m < int (length (concat cs))"
  from assms over
  have "deferred (buffer_run (Some m) (map Data cs) bufferStream_init) =
          Rejected (MaxLengthExceededError m)"
    by (intro buffer_run_data_breach) (simp_all add: bufferStream_init_def)
  then show "deferred (bufferStream (Some m) (map Data cs @ rest)) =
      Rejected (MaxLengthExceededError m)"
    by (simp add: bufferStream_def buffer_run_append buffer_run_settled)
next
  assume "int (length (concat cs)) \<le> m"
  then have "within_limit (Some m) (length_total bufferStream_init + length (concat cs))"
    by (simp add: within_limit_def bufferStream_init_def)
  from buffer_run_data_within [OF this]
  show "deferred (bufferStream (Some m) (map Data cs @ End # rest)) = Resolved (concat cs)"
    by (simp add: bufferStream_def buffer_run_append buffer_run_settled buffer_on_end_def
        bufferStream_init_def)
qed

theorem bufferStream_limit_witness:
  "(0::int) < 15
   \<and> deferred (bufferStream (Some 15) [Data ''aaaaaaaaaa'', Data ''bbbbbbbbbb'', End]) =
       Rejected (MaxLengthExceededError 15)
   \<and> deferred (bufferStream (Some 15) [Data ''aaaaaaaaaa'', Data ''bbbbb'', End]) =
       Resolved ''aaaaaaaaaabbbbb''"
  using bufferStream_limit [of 15 "[''aaaaaaaaaa'', ''bbbbbbbbbb'']" "[End]"]
    bufferStream_limit [of 15 "[''aaaaaaaaaa'', ''bbbbb'']" "[]"]
  by simp

text \<open>
  Claim C5. With the maximum absent or \<open>0\<close> there is no bound: when the stream ends, the
  promise of \<^verbatim>\<open>bufferStream\<close> is resolved with the concatenation of all chunks in their
  order of arrival, whose length is the sum of the chunks' lengths; a stream that ends at
  once gives the empty buffer.
\<close>

theorem bufferStream_unbounded:
  assumes "maxLength = None \<or> maxLength = Some 0"
  shows "deferred (bufferStream maxLength (map Data cs @ End # rest)) = Resolved (concat cs)
       \<and> length (concat cs) = sum_list (map length cs)
       \<and> deferred (bufferStream maxLength (End # rest)) = Resolved []"
proof -
  have all: "deferred (bufferStream maxLength (map Data ds @ End # rest)) = Resolved (concat ds)"
    for ds
  proof -
    from assms
    have w: "within_limit maxLength (length_total bufferStream_init + length (concat ds))"
      by (auto simp: within_limit_def)
    have run: "buffer_run maxLength (map Data ds) bufferStream_init =
        bufferStream_init\<lparr>chunks := ds, length_total := length (concat ds)\<rparr>"
      using buffer_run_data_within [OF w] by (simp add: bufferStream_init_def)
    have "deferred (buffer_on_end (buffer_run maxLength (map Data ds) bufferStream_init)) =
        Resolved (concat ds)"
      unfolding run by (simp add: buffer_on_end_def bufferStream_init_def)
    then show ?thesis
      by (simp add: bufferStream_def buffer_run_append buffer_run_settled)
  qed
  from all [of cs] all [of "[]"] show ?thesis
    by (simp add: length_concat)
qed

theorem bufferStream_unbounded_witness:
  "deferred (bufferStream None [Data ''ab'', Data ''cd'', Data ''ef'', End]) = Resolved ''abcdef''
   \<and> deferred (bufferStream (Some 0) [Data ''ab'', Data ''cd'', Data ''ef'', End]) =
       Resolved ''abcdef''
   \<and> deferred (bufferStream None [End]) = Resolved []"
  using bufferStream_unbounded [of None "[''ab'', ''cd'', ''ef'']" "[]"]
    bufferStream_unbounded [of "Some 0" "[''ab'', ''cd'', ''ef'']" "[]"]
  by simp

text \<open>
  Claim C9. With a configured maximum \<open>m\<close> (not \<open>0\<close>): when the arrival of the chunk \<open>c\<close>
  takes the running total above \<open>m\<close>, neither \<open>c\<close> nor any chunk after it is appended to
  \<open>chunks\<close>, whatever is delivered later; if the total was within \<open>m\<close> before \<open>c\<close>, then
  \<open>chunks\<close> is and stays the list of the chunks received before \<open>c\<close>. The counter goes
  on adding the length of every chunk received, so it stays above \<open>m\<close>.
\<close>

theorem bufferStream_breach_freezes_chunks:
  assumes "m \<noteq> 0"
    and "m < int (length_total (bufferStream (Some m) evs) + length c)"
  shows "chunks (bufferStream (Some m) (evs @ Data c # later)) =
           chunks (bufferStream (Some m) evs)
       \<and> (int (length_total (bufferStream (Some m) evs)) \<le> m \<longrightarrow>
           chunks (bufferStream (Some m) (evs @ Data c # later)) = data_chunks evs)
       \<and> length_total (bufferStream (Some m) (evs @ Data c # later)) =
           length (concat (data_chunks (evs @ Data c # later)))
       \<and> m < int (length_total (bufferStream (Some m) (evs @ Data c # later)))"
proof -
  let ?s = "bufferStream (Some m) evs"
  let ?s1 = "buffer_on_data (Some m) c ?s"
  have before: "chunks ?s = data_chunks evs" if "int (length_total ?s) \<le> m"
    using buffer_run_keeps_all [of m evs bufferStream_init] that
    by (simp add: bufferStream_def bufferStream_init_def)
  from assms have at: "chunks ?s1 = chunks ?s" "m < int (length_total ?s1)"
    by (simp_all add: buffer_on_data_def Let_def)
  have "chunks (buffer_run (Some m) later ?s1) = chunks ?s1"
    using assms(1) at(2) by (rule buffer_run_over_limit)
  with at
  have 1: "chunks (bufferStream (Some m) (evs @ Data c # later)) = chunks ?s"
    by (simp add: bufferStream_def buffer_run_append)
  have 2: "length_total (bufferStream (Some m) (evs @ Data c # later)) =
      length (concat (data_chunks (evs @ Data c # later)))"
    by (simp add: bufferStream_def buffer_run_length_total bufferStream_init_def)
  have "length_total ?s1 \<le> length_total (buffer_run (Some m) later ?s1)"
    by (simp add: buffer_run_length_total)
  with at(2) have 3: "m < int (length_total (bufferStream (Some m) (evs @ Data c # later)))"
    by (simp add: bufferStream_def buffer_run_append)
  from 1 before 2 3 show ?thesis by simp
qed

theorem bufferStream_breach_freezes_chunks_witness:
  "chunks (bufferStream (Some 15)
      [Data ''aaaaaaaaaa'', Data ''bbbbbbbbbb'', Data ''c'', End]) = [''aaaaaaaaaa'']"
  using bufferStream_breach_freezes_chunks
    [of 15 "[Data ''aaaaaaaaaa'']" "''bbbbbbbbbb''" "[Data ''c'', End]"]
  by (simp add: bufferStream_def bufferStream_init_def buffer_on_data_def)

section \<open>Settling once: the first deciding event\<close>

lemma buffer_run_first_event_wins:
  "deferred s = Pending \<Longrightarrow> length_total s = length (concat (chunks s)) \<Longrightarrow>
   deferred (buffer_run m evs s) = first_event_wins_buffer m (chunks s) evs"
proof (induction evs arbitrary: s)
  case Nil
  then show ?case by simp
next
  case (Cons e evs)
  show ?case
  proof (cases e)
    case (Data c)
    show ?thesis
    proof (cases "within_limit m (length_total s + length c)")
      case True
      let ?s1 = "s\<lparr>chunks := chunks s @ [c], length_total := length_total s + length c\<rparr>"
      from Cons.prems have "deferred ?s1 = Pending"
        and "length_total ?s1 = length (concat (chunks ?s1))"
        by simp_all
      from Cons.IH [OF this] True Cons.prems(2) Data show ?thesis
        by (auto simp: buffer_on_data_within within_limit_def split: option.splits)
    next
      case False
      then obtain l where l: "m = Some l" "l \<noteq> 0" "l < int (length_total s + length c)"
        by (auto simp: within_limit_def split: option.splits)
      with Cons.prems
      have "deferred (buffer_on_data m c s) = Rejected (MaxLengthExceededError l)"
        by (simp add: buffer_on_data_def Let_def)
      with l Cons.prems(2) Data show ?thesis
        by (simp add: buffer_run_settled)
    qed
  next
    case End
    with Cons.prems show ?thesis
      by (simp add: buffer_on_end_def buffer_run_settled)
  next
    case (Error x)
    with Cons.prems show ?thesis
      by (simp add: buffer_on_error_def buffer_run_settled)
  qed
qed

lemma checksum_run_append:
  "checksum_run hex (xs @ ys) s =
     (case checksum_run hex xs s of None \<Rightarrow> None | Some s' \<Rightarrow> checksum_run hex ys s')"
  by (induction xs arbitrary: s) (simp_all split: option.splits)

lemma checksum_deliver_settled:
  "checksum_deliver hex e s = Some s' \<Longrightarrow> settled (deferred s) \<Longrightarrow> deferred s' = deferred s"
  by (cases e)
     (auto simp: checksum_deliver_def checksum_on_data_def checksum_on_end_def
        checksum_on_error_def split: if_splits sum.splits prod.splits)

lemma checksum_run_settled:
  "checksum_run hex evs s = Some s' \<Longrightarrow> settled (deferred s) \<Longrightarrow> deferred s' = deferred s"
proof (induction evs arbitrary: s)
  case Nil
  then show ?case by simp
next
  case (Cons e evs)
  from Cons.prems(1) obtain s1 where s1: "checksum_deliver hex e s = Some s1"
    and run: "checksum_run hex evs s1 = Some s'"
    by (auto split: option.splits)
  from checksum_deliver_settled [OF s1 Cons.prems(2)] Cons.prems(2) Cons.IH [OF run]
  show ?case by simp
qed

lemma checksum_run_first_event_wins:
  "checksum_run hex evs s = Some s' \<Longrightarrow> deferred s = Pending \<Longrightarrow>
   hash s = Hashing (concat seen) \<Longrightarrow>
   deferred s' = first_event_wins_checksum hex seen evs"
proof (induction evs arbitrary: s seen)
  case Nil
  then show ?case by simp
next
  case (Cons e evs)
  from Cons.prems(1) obtain s1 where s1: "checksum_deliver hex e s = Some s1"
    and run: "checksum_run hex evs s1 = Some s'"
    by (auto split: option.splits)
  show ?case
  proof (cases e)
    case (Data c)
    with s1 Cons.prems have "deferred s1 = Pending" "hash s1 = Hashing (concat (seen @ [c]))"
      by (auto simp: checksum_deliver_def checksum_on_data_def hash_object_update_def
          split: if_splits)
    from Cons.IH [OF run this] Data show ?thesis by simp
  next
    case End
    with s1 Cons.prems have "deferred s1 = Resolved (hex (concat seen))"
      by (auto simp: checksum_deliver_def checksum_on_end_def hash_object_digest_def
          split: if_splits)
    with checksum_run_settled [OF run] End show ?thesis by simp
  next
    case (Error x)
    with s1 Cons.prems have "deferred s1 = Rejected x"
      by (auto simp: checksum_deliver_def checksum_on_error_def split: if_splits)
    with checksum_run_settled [OF run] Error show ?thesis by simp
  qed
qed

lemmas disk_handler_defs =
  disk_deliver_def disk_on_data_def disk_on_end_def disk_on_error_def stream_write_def
  stream_end_def disk_flushed_def disk_write_failed_def disk_finish_def disk_closed_def

lemma streamToDisk_init_eq:
  "streamToDisk_init env p filePrefix =
     \<lparr>deferred = Pending, uncaught = None,
      info = \<lparr>path = makeTemporaryPath env filePrefix, name = filename p,
              type = part_type p, size_info = 0\<rparr>,
      destination = makeTemporaryPath env filePrefix,
      queue = [], file_content = [], ending = False, finished = False, fd_closed = False\<rparr>"
  by (simp add: streamToDisk_init_def Let_def)

lemma disk_run_append:
  "disk_run (xs @ ys) s =
     (case disk_run xs s of None \<Rightarrow> None | Some s' \<Rightarrow> disk_run ys s')"
  by (induction xs arbitrary: s) (simp_all split: option.splits)

lemma disk_deliver_deferred:
  "disk_deliver e s = Some s' \<Longrightarrow>
   deferred s' =
     (case e of Part (Error x) \<Rightarrow> reject x (deferred s)
      | Finish \<Rightarrow> resolve () (deferred s)
      | _ \<Rightarrow> deferred s)"
  by (auto simp: disk_deliver_def disk_on_data_def disk_on_end_def disk_on_error_def
      stream_write_def stream_end_def disk_flushed_def disk_write_failed_def disk_finish_def disk_closed_def
      split: if_splits disk_event.splits event.splits list.splits)

lemma disk_run_settled:
  "disk_run evs s = Some s' \<Longrightarrow> settled (deferred s) \<Longrightarrow> deferred s' = deferred s"
proof (induction evs arbitrary: s)
  case Nil
  then show ?case by simp
next
  case (Cons e evs)
  from Cons.prems(1) obtain s1 where s1: "disk_deliver e s = Some s1"
    and run: "disk_run evs s1 = Some s'"
    by (auto split: option.splits)
  from disk_deliver_deferred [OF s1] Cons.prems(2) have "deferred s1 = deferred s"
    by (simp split: disk_event.splits event.splits)
  with Cons.IH [OF run] Cons.prems(2) show ?case by simp
qed

lemma disk_run_first_event_wins:
  "disk_run evs s = Some s' \<Longrightarrow> deferred s = Pending \<Longrightarrow>
   deferred s' = first_error_or_finish evs"
proof (induction evs arbitrary: s)
  case Nil
  then show ?case by simp
next
  case (Cons e evs)
  from Cons.prems(1) obtain s1 where s1: "disk_deliver e s = Some s1"
    and run: "disk_run evs s1 = Some s'"
    by (auto split: option.splits)
  note d = disk_deliver_deferred [OF s1]
  show ?case
  proof (cases "settled (deferred s1)")
    case True
    with d Cons.prems(2) disk_run_settled [OF run True] show ?thesis
      by (auto split: disk_event.splits event.splits)
  next
    case False
    then have p: "deferred s1 = Pending" by (cases "deferred s1") simp_all
    with d Cons.prems(2) Cons.IH [OF run p] show ?thesis
      by (auto split: disk_event.splits event.splits)
  qed
qed


lemma first_event_wins_buffer_settled:
  "End \<in> set evs \<or> (\<exists>x. Error x \<in> set evs) \<Longrightarrow>
   settled (first_event_wins_buffer m seen evs)"
  by (induction m seen evs rule: first_event_wins_buffer.induct)
     (auto split: option.splits)

lemma first_event_wins_checksum_settled:
  "End \<in> set evs \<or> (\<exists>x. Error x \<in> set evs) \<Longrightarrow>
   settled (first_event_wins_checksum hex seen evs)"
  by (induction hex seen evs rule: first_event_wins_checksum.induct) auto

lemma first_error_or_finish_settled:
  "Finish \<in> set evs \<or> (\<exists>x. Part (Error x) \<in> set evs) \<Longrightarrow>
   settled (first_error_or_finish evs)"
  by (induction evs rule: first_error_or_finish.induct) auto

text \<open>
  Claim C2, as stated, lets the first of source error, limit breach and normal completion
  in the source's order of events decide the outcome of every one of the three
  operations. It fails for \<^verbatim>\<open>streamToDisk\<close>: a part that ends normally and then emits an
  error before the file is finished leaves the promise rejected with that error.
\<close>

theorem streamToDisk_error_after_end_rejects:
  "map_option deferred
     (streamToDisk
        \<lparr>tmpDir = ''/tmp'', pid = 4242, getYear = 113, getMonth = 5, getDate = 17,
         math_random = 4294967295 / 4294967296, fraction_digits = (\<lambda>x. [])\<rparr>
        \<lparr>filename = None, part_type = None\<rparr> None
        [Part (Data ''abc''), Part End, Part (Error (SystemError ''late'')), Flushed, Finish])
     = Some (Rejected (SystemError ''late''))"
  by (simp add: streamToDisk_def streamToDisk_init_eq disk_handler_defs)

text \<open>
  Claim C2, amended. \<^verbatim>\<open>bufferStream\<close> and \<^verbatim>\<open>makeChecksum\<close> settle their promise exactly
  once, and what settles it is the first deciding event in the source's order of events:
  for \<^verbatim>\<open>bufferStream\<close> the first of a source error, a chunk that breaches the limit and
  the end; for \<^verbatim>\<open>makeChecksum\<close> the first of a source error and the end. Events delivered
  after the promise has settled do not change it, and a deciding event among those
  delivered means the promise has settled. In particular a chunk that breaches the limit,
  followed at once by an error event, gives \<^verbatim>\<open>MaxLengthExceededError\<close> and not the source's
  error. The promise of \<^verbatim>\<open>streamToDisk\<close> also settles at most once and is not changed
  afterwards, but the end of the part decides nothing by itself: the first event that is
  an error of the part or the callback of \<^verbatim>\<open>stream.end\<close> settles it.
\<close>

theorem first_event_settles_once:
  "deferred (bufferStream maxLength evs) = first_event_wins_buffer maxLength [] evs
   \<and> (settled (deferred (bufferStream maxLength evs)) \<longrightarrow>
        deferred (bufferStream maxLength (evs @ later)) = deferred (bufferStream maxLength evs))
   \<and> (outcome (makeChecksum supported hexdigest f algorithm evs) = Inr (Some c) \<longrightarrow>
        deferred c = first_event_wins_checksum (hexdigest (algorithm_or_md5 algorithm)) [] evs)
   \<and> (outcome (makeChecksum supported hexdigest f algorithm evs) = Inr (Some c) \<and>
      outcome (makeChecksum supported hexdigest f algorithm (evs @ later)) = Inr (Some c') \<and>
      settled (deferred c) \<longrightarrow> deferred c' = deferred c)
   \<and> (streamToDisk env p filePrefix sched = Some d \<longrightarrow>
        deferred d = first_error_or_finish sched)
   \<and> (streamToDisk env p filePrefix sched = Some d \<and>
      streamToDisk env p filePrefix (sched @ sched_later) = Some d' \<and>
      settled (deferred d) \<longrightarrow> deferred d' = deferred d)
   \<and> (0 < m \<and> int (length (concat cs)) \<le> m \<and> m < int (length (concat (cs @ [ch]))) \<longrightarrow>
        deferred (bufferStream (Some m) (map Data cs @ [Data ch, Error e])) =
          Rejected (MaxLengthExceededError m))
   \<and> (End \<in> set evs \<or> (\<exists>x. Error x \<in> set evs) \<longrightarrow>
        settled (deferred (bufferStream maxLength evs)))
   \<and> (outcome (makeChecksum supported hexdigest f algorithm evs) = Inr (Some c) \<and>
      (End \<in> set evs \<or> (\<exists>x. Error x \<in> set evs)) \<longrightarrow> settled (deferred c))
   \<and> (streamToDisk env p filePrefix sched = Some d \<and>
      (Finish \<in> set sched \<or> (\<exists>x. Part (Error x) \<in> set sched)) \<longrightarrow> settled (deferred d))"
proof (intro conjI impI)
  show "deferred (bufferStream maxLength evs) = first_event_wins_buffer maxLength [] evs"
    using buffer_run_first_event_wins [of bufferStream_init maxLength evs]
    by (simp add: bufferStream_def bufferStream_init_def)
next
  assume "settled (deferred (bufferStream maxLength evs))"
  then show "deferred (bufferStream maxLength (evs @ later)) =
      deferred (bufferStream maxLength evs)"
    by (simp add: bufferStream_def buffer_run_append buffer_run_settled)
next
  assume "outcome (makeChecksum supported hexdigest f algorithm evs) = Inr (Some c)"
  then have "checksum_run (hexdigest (algorithm_or_md5 algorithm)) evs
      (checksum_init (Hashing [])) = Some c"
    by (auto simp: makeChecksum_def createHash_def Let_def split: if_splits)
  from checksum_run_first_event_wins [OF this, of "[]"]
  show "deferred c = first_event_wins_checksum (hexdigest (algorithm_or_md5 algorithm)) [] evs"
    by (simp add: checksum_init_def)
next
  let ?hex = "hexdigest (algorithm_or_md5 algorithm)"
  assume a: "outcome (makeChecksum supported hexdigest f algorithm evs) = Inr (Some c) \<and>
      outcome (makeChecksum supported hexdigest f algorithm (evs @ later)) = Inr (Some c') \<and>
      settled (deferred c)"
  then have 1: "checksum_run ?hex evs (checksum_init (Hashing [])) = Some c"
    and 2: "checksum_run ?hex (evs @ later) (checksum_init (Hashing [])) = Some c'"
    by (auto simp: makeChecksum_def createHash_def Let_def split: if_splits)
  from 1 2 have "checksum_run ?hex later c = Some c'"
    by (simp add: checksum_run_append)
  from checksum_run_settled [OF this] a show "deferred c' = deferred c"
    by simp
next
  assume "streamToDisk env p filePrefix sched = Some d"
  then show "deferred d = first_error_or_finish sched"
    using disk_run_first_event_wins [of sched "streamToDisk_init env p filePrefix" d]
    by (simp add: streamToDisk_def streamToDisk_init_eq)
next
  assume a: "streamToDisk env p filePrefix sched = Some d \<and>
      streamToDisk env p filePrefix (sched @ sched_later) = Some d' \<and> settled (deferred d)"
  then have "disk_run sched_later d = Some d'"
    by (auto simp: streamToDisk_def disk_run_append)
  from disk_run_settled [OF this] a show "deferred d' = deferred d"
    by simp
next
  assume a: "0 < m \<and> int (length (concat cs)) \<le> m \<and> m < int (length (concat (cs @ [ch])))"
  then have "m \<noteq> 0"
    and "int (length_total bufferStream_init + length (concat (cs @ [ch]))) > m"
    and "int (length_total bufferStream_init) \<le> m"
    and "deferred bufferStream_init = Pending"
    by (simp_all add: bufferStream_init_def)
  then have "deferred (buffer_run (Some m) (map Data (cs @ [ch])) bufferStream_init) =
      Rejected (MaxLengthExceededError m)"
    by (rule buffer_run_data_breach)
  then have "deferred (buffer_run (Some m) (map Data (cs @ [ch]) @ [Error e]) bufferStream_init) =
      Rejected (MaxLengthExceededError m)"
    by (simp only: buffer_run_append [of _ "map Data (cs @ [ch])"] buffer_run_settled
        settled_simps)
  then show "deferred (bufferStream (Some m) (map Data cs @ [Data ch, Error e])) =
      Rejected (MaxLengthExceededError m)"
    by (simp add: bufferStream_def)
next
  assume "End \<in> set evs \<or> (\<exists>x. Error x \<in> set evs)"
  from first_event_wins_buffer_settled [OF this, of maxLength "[]"]
  show "settled (deferred (bufferStream maxLength evs))"
    using buffer_run_first_event_wins [of bufferStream_init maxLength evs]
    by (simp add: bufferStream_def bufferStream_init_def)
next
  assume a: "outcome (makeChecksum supported hexdigest f algorithm evs) = Inr (Some c) \<and>
      (End \<in> set evs \<or> (\<exists>x. Error x \<in> set evs))"
  then have "checksum_run (hexdigest (algorithm_or_md5 algorithm)) evs
      (checksum_init (Hashing [])) = Some c"
    by (auto simp: makeChecksum_def createHash_def Let_def split: if_splits)
  from checksum_run_first_event_wins [OF this, of "[]"]
  have "deferred c = first_event_wins_checksum (hexdigest (algorithm_or_md5 algorithm)) [] evs"
    by (simp add: checksum_init_def)
  with a show "settled (deferred c)"
    by (simp add: first_event_wins_checksum_settled)
next
  assume a: "streamToDisk env p filePrefix sched = Some d \<and>
      (Finish \<in> set sched \<or> (\<exists>x. Part (Error x) \<in> set sched))"
  then have "deferred d = first_error_or_finish sched"
    using disk_run_first_event_wins [of sched "streamToDisk_init env p filePrefix" d]
    by (simp add: streamToDisk_def streamToDisk_init_eq)
  with a show "settled (deferred d)"
    by (simp add: first_error_or_finish_settled)
qed


theorem first_event_settles_once_witness:
  "deferred (bufferStream (Some 15)
      [Data ''aaaaaaaaaa'', Data ''bbbbbbbbbb'', Error (SystemError ''ECONNRESET'')]) =
     Rejected (MaxLengthExceededError 15)
   \<and> (\<exists>c. outcome (makeChecksum (\<lambda>a. a \<in> set [''md5'', ''sha1''])
          (\<lambda>a d. ''d41d8cd98f00b204e9800998ecf8427e'') ''upload.bin'' None
          [End, Error (SystemError ''EIO'')]) = Inr (Some c)
        \<and> deferred c = Resolved ''d41d8cd98f00b204e9800998ecf8427e'')
   \<and> (\<exists>d. streamToDisk
          \<lparr>tmpDir = ''/tmp'', pid = 4242, getYear = 113, getMonth = 5, getDate = 17,
           math_random = 4294967295 / 4294967296, fraction_digits = (\<lambda>x. [])\<rparr>
          \<lparr>filename = Some ''a.txt'', part_type = Some ''text/plain''\<rparr> None
          [Part (Data ''abc''), Part (Error (SystemError ''aborted'')), Flushed, Part End, Finish]
          = Some d
        \<and> deferred d = Rejected (SystemError ''aborted''))"
proof -
  let ?sup = "\<lambda>a. a \<in> set [''md5'', ''sha1'']"
  let ?hex = "\<lambda>(a::string) (d::string). ''d41d8cd98f00b204e9800998ecf8427e''"
  let ?env = "\<lparr>tmpDir = ''/tmp'', pid = 4242, getYear = 113, getMonth = 5, getDate = 17,
           math_random = 4294967295 / 4294967296, fraction_digits = (\<lambda>x. [])\<rparr>"
  let ?p = "\<lparr>filename = Some ''a.txt'', part_type = Some ''text/plain''\<rparr>"
  let ?x = "SystemError ''aborted''"
  have "\<exists>c. outcome (makeChecksum ?sup ?hex ''upload.bin'' None [End]) = Inr (Some c)"
    by (simp add: makeChecksum_def createHash_def algorithm_or_md5_def checksum_deliver_def
        checksum_init_def)
  then obtain c where c: "outcome (makeChecksum ?sup ?hex ''upload.bin'' None [End]) = Inr (Some c)"
    by blast
  have "\<exists>c'. outcome (makeChecksum ?sup ?hex ''upload.bin'' None
      ([End] @ [Error (SystemError ''EIO'')])) = Inr (Some c')"
    by (simp add: makeChecksum_def createHash_def algorithm_or_md5_def checksum_deliver_def
        checksum_init_def checksum_on_end_def hash_object_digest_def)
  then obtain c' where c': "outcome (makeChecksum ?sup ?hex ''upload.bin'' None
      ([End] @ [Error (SystemError ''EIO'')])) = Inr (Some c')"
    by blast
  have "\<exists>d. streamToDisk ?env ?p None [Part (Data ''abc''), Part (Error ?x)] = Some d"
    by (simp add: streamToDisk_def disk_deliver_def streamToDisk_init_eq disk_on_data_def
        stream_write_def)
  then obtain d where d: "streamToDisk ?env ?p None [Part (Data ''abc''), Part (Error ?x)] = Some d"
    by blast
  have "\<exists>d'. streamToDisk ?env ?p None
      ([Part (Data ''abc''), Part (Error ?x)] @ [Flushed, Part End, Finish]) = Some d'"
    by (simp add: streamToDisk_def disk_deliver_def streamToDisk_init_eq disk_on_data_def
        stream_write_def disk_on_error_def disk_flushed_def disk_on_end_def stream_end_def
        disk_finish_def)
  then obtain d' where d': "streamToDisk ?env ?p None
      ([Part (Data ''abc''), Part (Error ?x)] @ [Flushed, Part End, Finish]) = Some d'"
    by blast
  note inst = first_event_settles_once
    [where maxLength = "Some 15" and evs = "[End]" and later = "[Error (SystemError ''EIO'')]"
      and supported = ?sup and hexdigest = ?hex and f = "''upload.bin''" and algorithm = None
      and c = c and c' = c' and env = ?env and p = ?p and filePrefix = None
      and sched = "[Part (Data ''abc''), Part (Error ?x)]"
      and sched_later = "[Flushed, Part End, Finish]" and d = d and d' = d'
      and m = 15 and cs = "[''aaaaaaaaaa'']" and ch = "''bbbbbbbbbb''"
      and e = "SystemError ''ECONNRESET''"]
  from inst have 1: "deferred (bufferStream (Some 15)
      [Data ''aaaaaaaaaa'', Data ''bbbbbbbbbb'', Error (SystemError ''ECONNRESET'')]) =
     Rejected (MaxLengthExceededError 15)"
    by simp
  from inst c have "deferred c = Resolved ''d41d8cd98f00b204e9800998ecf8427e''"
    by (simp add: algorithm_or_md5_def)
  with inst c c' have 2: "deferred c' = Resolved ''d41d8cd98f00b204e9800998ecf8427e''"
    by simp
  from inst d have "deferred d = Rejected ?x"
    by simp
  with inst d d' have 3: "deferred d' = Rejected ?x"
    by simp
  from 1 2 3 c' d' show ?thesis
    by simp
qed

section \<open>Properties of streamToDisk\<close>


lemma part_events_append: "part_events (xs @ ys) = part_events xs @ part_events ys"
  by (induction xs rule: part_events.induct) simp_all

lemma data_chunks_append: "data_chunks (xs @ ys) = data_chunks xs @ data_chunks ys"
  by (induction xs rule: data_chunks.induct) simp_all


lemma disk_deliver_alive: "disk_deliver e s = Some s' \<Longrightarrow> uncaught s = None"
  by (simp add: disk_deliver_def split: if_splits)

lemma disk_run_alive:
  "disk_run evs s = Some s' \<Longrightarrow> uncaught s' = None \<Longrightarrow> uncaught s = None"
  by (cases evs) (auto dest: disk_deliver_alive split: option.splits)



text \<open>The bytes on disk followed by the queued bytes are the bytes received, in order.\<close>

lemma disk_deliver_content:
  "disk_deliver e s = Some s' \<Longrightarrow> uncaught s' = None \<Longrightarrow>
   file_content s' @ concat (queue s') =
     file_content s @ concat (queue s) @ concat (data_chunks (part_events [e]))"
  by (auto simp: disk_handler_defs split: if_splits disk_event.splits event.splits list.splits)

lemma disk_run_content:
  "disk_run evs s = Some s' \<Longrightarrow> uncaught s' = None \<Longrightarrow>
   file_content s' @ concat (queue s') =
     file_content s @ concat (queue s) @ concat (data_chunks (part_events evs))"
proof (induction evs arbitrary: s)
  case Nil
  then show ?case by simp
next
  case (Cons e evs)
  from Cons.prems obtain s1 where s1: "disk_deliver e s = Some s1"
    and run: "disk_run evs s1 = Some s'"
    by (auto split: option.splits)
  from disk_run_alive [OF run Cons.prems(2)] have alive: "uncaught s1 = None" .
  have "part_events (e # evs) = part_events [e] @ part_events evs"
    using part_events_append [of "[e]" evs] by simp
  with disk_deliver_content [OF s1 alive] Cons.IH [OF run Cons.prems(2)] show ?case
    by (simp add: data_chunks_append)
qed







lemma first_error_or_finish_Rejected:
  "first_error_or_finish evs = Rejected e \<Longrightarrow> Part (Error e) \<in> set evs"
  by (induction evs rule: first_error_or_finish.induct) (auto split: if_splits)

text \<open>Chunks that arrive with no acknowledgement in between are all queued.\<close>

lemma disk_run_data_only:
  "uncaught s = None \<Longrightarrow> \<not> ending s \<Longrightarrow>
   disk_run (map (\<lambda>c. Part (Data c)) cs) s =
     Some (s\<lparr>info := (info s)\<lparr>size_info := size_info (info s) + length (concat cs)\<rparr>,
             queue := queue s @ cs\<rparr>)"
proof (induction cs arbitrary: s)
  case Nil
  then show ?case by simp
next
  case (Cons c cs)
  let ?s1 = "s\<lparr>info := (info s)\<lparr>size_info := size_info (info s) + length c\<rparr>,
      queue := queue s @ [c]\<rparr>"
  from Cons.prems have d: "disk_deliver (Part (Data c)) s = Some ?s1"
    by (simp add: disk_handler_defs)
  from Cons.prems have "uncaught ?s1 = None" "\<not> ending ?s1" by simp_all
  from Cons.IH [OF this] d show ?case
    by (simp add: add.assoc)
qed

lemma disk_run_flush_all:
  "uncaught s = None \<Longrightarrow> queue s = q \<Longrightarrow>
   disk_run (replicate (length q) Flushed) s =
     Some (s\<lparr>queue := [], file_content := file_content s @ concat q\<rparr>)"
proof (induction q arbitrary: s)
  case Nil
  then show ?case by simp
next
  case (Cons c q)
  let ?s1 = "s\<lparr>queue := q, file_content := file_content s @ c\<rparr>"
  from Cons.prems have d: "disk_deliver Flushed s = Some ?s1"
    by (simp add: disk_handler_defs)
  from Cons.prems have "uncaught ?s1 = None" "queue ?s1 = q" by simp_all
  from Cons.IH [OF this] d show ?case
    by simp
qed






text \<open>
  Claim C10. \<^verbatim>\<open>streamToDisk\<close> has no byte ceiling: while the process runs and the stream
  is not ended, the data handler adds the chunk's length to the size and hands the chunk
  to the write stream, whatever the running total is; chunks alone, however many and
  however long, leave the promise pending with every chunk queued; and the promise is
  rejected only with the error of an \<^verbatim>\<open>error\<close> event of the part.
\<close>

theorem streamToDisk_no_ceiling:
  "(uncaught s = None \<and> \<not> ending s \<longrightarrow>
      disk_deliver (Part (Data c)) s =
        Some (s\<lparr>info := (info s)\<lparr>size_info := size_info (info s) + length c\<rparr>,
                queue := queue s @ [c]\<rparr>))
   \<and> (\<exists>d. streamToDisk env p filePrefix (map (\<lambda>c. Part (Data c)) cs) = Some d
        \<and> deferred d = Pending \<and> uncaught d = None \<and> queue d = cs
        \<and> size_info (info d) = length (concat cs))
   \<and> (streamToDisk env p filePrefix sched = Some d' \<and> deferred d' = Rejected e \<longrightarrow>
        Part (Error e) \<in> set sched)"
proof -
  have A: "disk_deliver (Part (Data c)) s =
        Some (s\<lparr>info := (info s)\<lparr>size_info := size_info (info s) + length c\<rparr>,
                queue := queue s @ [c]\<rparr>)"
    if "uncaught s = None \<and> \<not> ending s"
    using that by (simp add: disk_handler_defs)
  let ?s0 = "streamToDisk_init env p filePrefix"
  have "disk_run (map (\<lambda>c. Part (Data c)) cs) ?s0 =
      Some (?s0\<lparr>info := (info ?s0)\<lparr>size_info := size_info (info ?s0) + length (concat cs)\<rparr>,
             queue := queue ?s0 @ cs\<rparr>)"
    by (rule disk_run_data_only) (simp_all add: streamToDisk_init_eq)
  then have B: "\<exists>d. streamToDisk env p filePrefix (map (\<lambda>c. Part (Data c)) cs) = Some d
        \<and> deferred d = Pending \<and> uncaught d = None \<and> queue d = cs
        \<and> size_info (info d) = length (concat cs)"
    by (simp add: streamToDisk_def streamToDisk_init_eq)
  have C: "Part (Error e) \<in> set sched"
    if a: "streamToDisk env p filePrefix sched = Some d' \<and> deferred d' = Rejected e"
  proof -
    from a have "disk_run sched ?s0 = Some d'"
      by (simp add: streamToDisk_def)
    from disk_run_first_event_wins [OF this] a have "first_error_or_finish sched = Rejected e"
      by (simp add: streamToDisk_init_eq)
    then show ?thesis
      by (rule first_error_or_finish_Rejected)
  qed
  from A B C show ?thesis
    by blast
qed

theorem streamToDisk_no_ceiling_witness:
  "\<exists>d. streamToDisk
        \<lparr>tmpDir = ''/tmp'', pid = 4242, getYear = 113, getMonth = 5, getDate = 17,
         math_random = 4294967295 / 4294967296, fraction_digits = (\<lambda>x. [])\<rparr>
        \<lparr>filename = None, part_type = None\<rparr> None
        [Part (Data ''abc''), Part (Data ''defgh''), Part (Error (SystemError ''aborted''))]
        = Some d
      \<and> deferred d = Rejected (SystemError ''aborted'')
      \<and> Part (Error (SystemError ''aborted'')) \<in>
          set [Part (Data ''abc''), Part (Data ''defgh''), Part (Error (SystemError ''aborted''))]
      \<and> queue d = [''abc'', ''defgh'']"
proof -
  let ?env = "\<lparr>tmpDir = ''/tmp'', pid = 4242, getYear = 113, getMonth = 5, getDate = 17,
         math_random = 4294967295 / 4294967296, fraction_digits = (\<lambda>x. [])\<rparr>"
  let ?p = "\<lparr>filename = None, part_type = None\<rparr>"
  let ?sched = "[Part (Data ''abc''), Part (Data ''defgh''), Part (Error (SystemError ''aborted''))]"
  have "\<exists>d. streamToDisk ?env ?p None ?sched = Some d
      \<and> deferred d = Rejected (SystemError ''aborted'') \<and> queue d = [''abc'', ''defgh'']"
    by (simp add: streamToDisk_def streamToDisk_init_eq disk_handler_defs)
  then obtain d where d: "streamToDisk ?env ?p None ?sched = Some d"
    "deferred d = Rejected (SystemError ''aborted'')" "queue d = [''abc'', ''defgh'']"
    by blast
  with streamToDisk_no_ceiling
    [where env = ?env and p = ?p and filePrefix = None and sched = ?sched and d' = d
      and e = "SystemError ''aborted''"]
  have "Part (Error (SystemError ''aborted'')) \<in> set ?sched"
    by blast
  with d show ?thesis
    by blast
qed

text \<open>
  Claim C3, as stated, says that a write is not begun before the previous one is
  acknowledged, so that at most one chunk is in flight. It fails: two chunks delivered
  with no acknowledgement in between are both handed to the write stream.
\<close>

theorem streamToDisk_two_writes_in_flight:
  "map_option queue
     (streamToDisk
        \<lparr>tmpDir = ''/tmp'', pid = 4242, getYear = 113, getMonth = 5, getDate = 17,
         math_random = 4294967295 / 4294967296, fraction_digits = (\<lambda>x. [])\<rparr>
        \<lparr>filename = None, part_type = None\<rparr> None
        [Part (Data ''a''), Part (Data ''b'')]) = Some [''a'', ''b'']
   \<and> map_option file_content
     (streamToDisk
        \<lparr>tmpDir = ''/tmp'', pid = 4242, getYear = 113, getMonth = 5, getDate = 17,
         math_random = 4294967295 / 4294967296, fraction_digits = (\<lambda>x. [])\<rparr>
        \<lparr>filename = None, part_type = None\<rparr> None
        [Part (Data ''a''), Part (Data ''b'')]) = Some []"
  by (simp add: streamToDisk_def streamToDisk_init_eq disk_handler_defs)

text \<open>
  Claim C3, amended. \<^verbatim>\<open>streamToDisk\<close> hands every chunk to the write stream as soon as
  it is delivered, without waiting for the acknowledgement of earlier writes: after the
  chunks \<open>cs\<close> with no acknowledgement, all of \<open>cs\<close> is in flight and nothing is on disk.
  The order is kept all the same: in every schedule of a running process, the bytes on
  disk followed by the bytes in flight are the bytes delivered, in their order.
\<close>

theorem streamToDisk_writes_without_waiting:
  "(\<exists>d. streamToDisk env p filePrefix (map (\<lambda>c. Part (Data c)) cs) = Some d
        \<and> queue d = cs \<and> file_content d = [])
   \<and> (streamToDisk env p filePrefix sched = Some s \<and> uncaught s = None \<longrightarrow>
        file_content s @ concat (queue s) = concat (data_chunks (part_events sched)))"
proof -
  let ?s0 = "streamToDisk_init env p filePrefix"
  have "disk_run (map (\<lambda>c. Part (Data c)) cs) ?s0 =
      Some (?s0\<lparr>info := (info ?s0)\<lparr>size_info := size_info (info ?s0) + length (concat cs)\<rparr>,
             queue := queue ?s0 @ cs\<rparr>)"
    by (rule disk_run_data_only) (simp_all add: streamToDisk_init_eq)
  then have A: "\<exists>d. streamToDisk env p filePrefix (map (\<lambda>c. Part (Data c)) cs) = Some d
        \<and> queue d = cs \<and> file_content d = []"
    by (simp add: streamToDisk_def streamToDisk_init_eq)
  have B: "file_content s @ concat (queue s) = concat (data_chunks (part_events sched))"
    if a: "streamToDisk env p filePrefix sched = Some s \<and> uncaught s = None"
  proof -
    from a have "disk_run sched ?s0 = Some s" "uncaught s = None"
      by (simp_all add: streamToDisk_def)
    from disk_run_content [OF this] show ?thesis
      by (simp add: streamToDisk_init_eq)
  qed
  from A B show ?thesis
    by blast
qed

theorem streamToDisk_writes_without_waiting_witness:
  "\<exists>s. streamToDisk
        \<lparr>tmpDir = ''/tmp'', pid = 4242, getYear = 113, getMonth = 5, getDate = 17,
         math_random = 4294967295 / 4294967296, fraction_digits = (\<lambda>x. [])\<rparr>
        \<lparr>filename = None, part_type = None\<rparr> None
        [Part (Data ''ab''), Part (Data ''cd''), Flushed, Part (Data ''ef'')] = Some s
      \<and> uncaught s = None \<and> file_content s @ concat (queue s) = ''abcdef''"
proof -
  let ?env = "\<lparr>tmpDir = ''/tmp'', pid = 4242, getYear = 113, getMonth = 5, getDate = 17,
         math_random = 4294967295 / 4294967296, fraction_digits = (\<lambda>x. [])\<rparr>"
  let ?p = "\<lparr>filename = None, part_type = None\<rparr>"
  let ?sched = "[Part (Data ''ab''), Part (Data ''cd''), Flushed, Part (Data ''ef'')]"
  have "\<exists>s. streamToDisk ?env ?p None ?sched = Some s \<and> uncaught s = None"
    by (simp add: streamToDisk_def streamToDisk_init_eq disk_handler_defs)
  then obtain s where s: "streamToDisk ?env ?p None ?sched = Some s" "uncaught s = None"
    by blast
  with streamToDisk_writes_without_waiting
    [where env = ?env and p = ?p and filePrefix = None and sched = ?sched and s = s]
  have "file_content s @ concat (queue s) = ''abcdef''"
    by simp
  with s show ?thesis
    by blast
qed

text \<open>
  Claim C6 at a failing input: the part delivers the chunk \<open>abc\<close> and writing it fails
  with \<open>ENOSPC\<close>. The promise is not rejected: it stays pending, the error is an
  uncaught exception of the process, and no further event is delivered.
\<close>

theorem streamToDisk_write_failure_unreported:
  "map_option deferred
     (streamToDisk
        \<lparr>tmpDir = ''/tmp'', pid = 4242, getYear = 113, getMonth = 5, getDate = 17,
         math_random = 4294967295 / 4294967296, fraction_digits = (\<lambda>x. [])\<rparr>
        \<lparr>filename = None, part_type = None\<rparr> None
        [Part (Data ''abc''), WriteFailed (SystemError ''ENOSPC'')]) = Some Pending
   \<and> map_option uncaught
     (streamToDisk
        \<lparr>tmpDir = ''/tmp'', pid = 4242, getYear = 113, getMonth = 5, getDate = 17,
         math_random = 4294967295 / 4294967296, fraction_digits = (\<lambda>x. [])\<rparr>
        \<lparr>filename = None, part_type = None\<rparr> None
        [Part (Data ''abc''), WriteFailed (SystemError ''ENOSPC'')])
       = Some (Some (SystemError ''ENOSPC''))
   \<and> streamToDisk
        \<lparr>tmpDir = ''/tmp'', pid = 4242, getYear = 113, getMonth = 5, getDate = 17,
         math_random = 4294967295 / 4294967296, fraction_digits = (\<lambda>x. [])\<rparr>
        \<lparr>filename = None, part_type = None\<rparr> None
        ([Part (Data ''abc''), WriteFailed (SystemError ''ENOSPC'')] @ ev # evs) = None"
  by (simp add: streamToDisk_def streamToDisk_init_eq disk_handler_defs)

section \<open>Properties of makeChecksum\<close>

text \<open>
  Claim C7, as stated, says that every algorithm name outside the supported set makes
  \<^verbatim>\<open>makeChecksum\<close> fail before any file is opened. It fails for the empty name: the
  library supports no algorithm of that name, yet the call opens the file and resolves
  with the md5 digest.
\<close>

theorem makeChecksum_empty_name_is_md5:
  "(''''  \<in> set [''md5'', ''sha1'', ''sha256'', ''sha512'']) = False
   \<and> opened (makeChecksum (\<lambda>a. a \<in> set [''md5'', ''sha1'', ''sha256'', ''sha512''])
        (\<lambda>a d. ''d41d8cd98f00b204e9800998ecf8427e'') ''upload.bin'' (Some '''') [End])
      = [''upload.bin'']
   \<and> map_sum id (map_option deferred)
        (outcome (makeChecksum (\<lambda>a. a \<in> set [''md5'', ''sha1'', ''sha256'', ''sha512''])
          (\<lambda>a d. ''d41d8cd98f00b204e9800998ecf8427e'') ''upload.bin'' (Some '''') [End]))
      = Inr (Some (Resolved ''d41d8cd98f00b204e9800998ecf8427e''))"
  by (simp add: makeChecksum_def createHash_def algorithm_or_md5_def checksum_deliver_def
      checksum_init_def checksum_on_end_def hash_object_digest_def)

text \<open>
  Claim C7, amended. For every algorithm name that is not empty and that
  \<^verbatim>\<open>crypto.createHash\<close> does not support, \<^verbatim>\<open>makeChecksum\<close> throws the library's error
  before it opens the file: no file is opened, no event is handled and no digest is
  produced, whatever the stream would have emitted. The same holds with the algorithm
  absent or empty when md5 is not supported. A file is opened only for a supported name.
\<close>

theorem makeChecksum_unsupported_fails_fast:
  "(a \<noteq> [] \<and> \<not> supported a \<longrightarrow>
      makeChecksum supported hexdigest f (Some a) evs =
        \<lparr>opened = [], outcome = Inl (SystemError ''Digest method not supported'')\<rparr>)
   \<and> (\<not> supported (algorithm_or_md5 algorithm) \<longrightarrow>
      makeChecksum supported hexdigest f algorithm evs =
        \<lparr>opened = [], outcome = Inl (SystemError ''Digest method not supported'')\<rparr>)
   \<and> (opened (makeChecksum supported hexdigest f algorithm evs) \<noteq> [] \<longrightarrow>
      supported (algorithm_or_md5 algorithm))"
proof -
  have A: "makeChecksum supported hexdigest f algorithm evs =
        \<lparr>opened = [], outcome = Inl (SystemError ''Digest method not supported'')\<rparr>"
    if "\<not> supported (algorithm_or_md5 algorithm)" for algorithm
    using that by (simp add: makeChecksum_def createHash_def)
  have B: "supported (algorithm_or_md5 algorithm)"
    if "opened (makeChecksum supported hexdigest f algorithm evs) \<noteq> []"
    using that by (cases "supported (algorithm_or_md5 algorithm)") (simp_all add: A)
  have "algorithm_or_md5 (Some a) = a" if "a \<noteq> []"
    using that by (simp add: algorithm_or_md5_def)
  with A [of "Some a"] A [of algorithm] B show ?thesis
    by auto
qed

theorem makeChecksum_unsupported_fails_fast_witness:
  "makeChecksum (\<lambda>a. a \<in> set [''md5'', ''sha1'', ''sha256'', ''sha512''])
      (\<lambda>a d. ''d41d8cd98f00b204e9800998ecf8427e'') ''upload.bin'' (Some ''crc99'')
      [Data ''abc'', End] =
     \<lparr>opened = [], outcome = Inl (SystemError ''Digest method not supported'')\<rparr>"
  using makeChecksum_unsupported_fails_fast
    [where a = "''crc99''" and supported = "\<lambda>a. a \<in> set [''md5'', ''sha1'', ''sha256'', ''sha512'']"
      and hexdigest = "\<lambda>a d. ''d41d8cd98f00b204e9800998ecf8427e''" and f = "''upload.bin''"
      and evs = "[Data ''abc'', End]"]
  by simp

section \<open>Properties of makeTemporaryPath\<close>

lemma split_slash_not_Nil: "split_slash x \<noteq> []"
  by (induction x) (simp_all split: list.splits)

lemma split_slash_plain: "CHR ''/'' \<notin> set w \<Longrightarrow> split_slash w = [w]"
  by (induction w) auto

lemma split_slash_append:
  "split_slash (a @ CHR ''/'' # b) = split_slash a @ split_slash b"
proof (induction a)
  case Nil
  then show ?case by simp
next
  case (Cons c a)
  then show ?case
    using split_slash_not_Nil [of a]
    by (cases "split_slash a") simp_all
qed

lemma join_with_snoc:
  "xs \<noteq> [] \<Longrightarrow> join_with sep (xs @ [y]) = join_with sep xs @ sep @ y"
  by (induction sep xs rule: join_with.induct) simp_all

text \<open>A plain last segment survives normalisation and leaves the segments before it alone.\<close>

lemma normalize_step_acc:
  "foldr normalize_step xs (u, acc) =
     (case foldr normalize_step xs (u, []) of (u', kept) \<Rightarrow> (u', kept @ acc))"
proof (induction xs)
  case Nil
  then show ?case by simp
next
  case (Cons x xs)
  obtain a b where ab: "foldr normalize_step xs (u, []) = (a, b)"
    by (cases "foldr normalize_step xs (u, [])")
  with Cons.IH have "foldr normalize_step xs (u, acc) = (a, b @ acc)"
    by simp
  then have 1: "foldr normalize_step (x # xs) (u, acc) = normalize_step x (a, b @ acc)"
    by simp
  from ab have 2: "foldr normalize_step (x # xs) (u, []) = normalize_step x (a, b)"
    by simp
  show ?case
    unfolding 1 2 by (simp add: normalize_step_def)
qed

lemma normalizeArray_snoc_plain:
  assumes "plain_segment nm"
  shows "normalizeArray (parts @ [nm]) b = normalizeArray parts b @ [nm]"
proof -
  from assms have "normalize_step nm (0, []) = (0, [nm])"
    by (simp add: normalize_step_def plain_segment_def)
  then have "foldr normalize_step (parts @ [nm]) (0, []) = foldr normalize_step parts (0, [nm])"
    by simp
  then show ?thesis
    unfolding normalizeArray_def
    by (cases "foldr normalize_step parts (0, [])")
       (simp add: normalize_step_acc [of parts 0 "[nm]"])
qed

lemma path_join_directory:
  assumes nm: "plain_segment nm"
  shows "path_join [d, nm] =
     (if is_absolute d then ''/'' else []) @ join_with ''/'' (directory_segments d @ [nm])"
proof -
  from nm have nm': "nm \<noteq> []" "CHR ''/'' \<notin> set nm"
    by (simp_all add: plain_segment_def)
  then obtain c nm1 where c: "nm = c # nm1" "c \<noteq> CHR ''/''"
    by (cases nm) auto
  let ?p = "join_with ''/'' (filter (\<lambda>p. p \<noteq> []) [d, nm])"
  have p: "?p = (if d = [] then nm else d @ CHR ''/'' # nm)"
    using nm' by (cases "d = []") simp_all
  have parts: "filter (\<lambda>x. x \<noteq> []) (split_slash ?p) =
      filter (\<lambda>x. x \<noteq> []) (split_slash d) @ [nm]"
    unfolding p using nm' by (simp add: split_slash_append split_slash_plain)
  have abs: "(case ?p of [] \<Rightarrow> False | c # _ \<Rightarrow> c = CHR ''/'') = is_absolute d"
    unfolding p using c by (cases d) (simp_all add: is_absolute_def)
  have "rev ?p = rev nm @ (if d = [] then [] else CHR ''/'' # rev d)"
    unfolding p by simp
  moreover from nm' obtain z zs where "rev nm = z # zs" "z \<noteq> CHR ''/''"
    by (cases nm rule: rev_cases) auto
  ultimately have last: "(case rev ?p of [] \<Rightarrow> False | c # _ \<Rightarrow> c = CHR ''/'') = False"
    by simp
  have norm: "normalizeArray (filter (\<lambda>x. x \<noteq> []) (split_slash d) @ [nm]) (\<not> is_absolute d) =
      directory_segments d @ [nm]"
    by (simp add: normalizeArray_snoc_plain [OF nm] directory_segments_def)
  have nonempty: "join_with ''/'' (directory_segments d @ [nm]) \<noteq> []"
    using nm' by (cases "directory_segments d = []") (simp_all add: join_with_snoc)
  have "normalize ?p =
      (if is_absolute d then ''/'' else []) @ join_with ''/'' (directory_segments d @ [nm])"
    unfolding normalize_def Let_def parts abs last norm
    using nonempty by simp
  then show ?thesis
    by (simp only: path_join_def)
qed

text \<open>The numbers written into the name contain no path separator.\<close>

lemma digit_decimal: "digit n \<in> set ''0123456789''"
  unfolding digit_def by (rule nth_mem) simp

lemma show_nat_decimal: "set (show_nat n) \<subseteq> set ''0123456789''"
proof (induction n rule: show_nat.induct)
  case (1 n)
  show ?case
  proof (cases "n < 10")
    case True
    then show ?thesis
      using digit_decimal [of n] by (subst show_nat.simps) simp
  next
    case False
    with 1 digit_decimal [of n] show ?thesis
      by (subst show_nat.simps) simp
  qed
qed

lemma show_nat_no_slash: "CHR ''/'' \<notin> set (show_nat n)"
  using show_nat_decimal [of n] by auto

lemma show_int_no_slash: "CHR ''/'' \<notin> set (show_int i)"
  by (simp add: show_int_def show_nat_no_slash)

lemma digit36_alphabet: "digit36 n \<in> set ''0123456789abcdefghijklmnopqrstuvwxyz''"
  unfolding digit36_def by (rule nth_mem) simp

lemma digit36_no_slash: "digit36 n \<noteq> CHR ''/''"
  using digit36_alphabet [of n] by auto

lemma show_base36_no_slash: "CHR ''/'' \<notin> set (show_base36 n)"
proof (induction n rule: show_base36.induct)
  case (1 n)
  show ?case
  proof (cases "n < 36")
    case True
    then show ?thesis
      using digit36_no_slash [of n] by (subst show_base36.simps) auto
  next
    case False
    with 1 digit36_no_slash [of n] show ?thesis
      by (subst show_base36.simps) auto
  qed
qed

lemma digits36_no_slash: "CHR ''/'' \<notin> set (map digit36 ds)"
proof
  assume "CHR ''/'' \<in> set (map digit36 ds)"
  then obtain d where "digit36 d = CHR ''/''"
    by auto
  with digit36_no_slash [of d] show False
    by simp
qed

lemma render36_no_slash: "CHR ''/'' \<notin> set (render36 fraction x)"
  using digits36_no_slash [of "fraction x"]
  by (simp add: render36_def show_base36_no_slash del: set_map)

lemma random_component_no_slash: "CHR ''/'' \<notin> set (random_component env)"
  by (simp add: random_component_def toString36_def render36_no_slash)

lemma temporary_name_plain:
  assumes "CHR ''/'' \<notin> set pre"
  shows "plain_segment (temporary_name env pre)"
proof -
  from assms have "CHR ''/'' \<notin> set (temporary_name env pre)"
    by (simp add: temporary_name_def show_nat_no_slash show_int_no_slash
        random_component_no_slash)
  moreover have "CHR ''-'' \<in> set (temporary_name env pre)"
    by (simp add: temporary_name_def)
  ultimately show ?thesis
    by (auto simp: plain_segment_def)
qed

lemma makeTemporaryPath_name:
  "makeTemporaryPath env prefix =
     path_join [tmpDir env, temporary_name env (case prefix of None \<Rightarrow> [] | Some p \<Rightarrow> p)]"
  by (simp add: makeTemporaryPath_def temporary_name_def Let_def)

text \<open>A draw that is a multiple of \<open>2 ^ -32\<close> is rendered as a whole number, exactly.\<close>

lemma bit_length_bound: "n < 2 ^ k \<Longrightarrow> bit_length n \<le> k"
proof (induction n arbitrary: k rule: bit_length.induct)
  case (1 n)
  show ?case
  proof (cases "n = 0")
    case True
    then show ?thesis by (subst bit_length.simps) simp
  next
    case False
    with "1.prems" obtain j where k: "k = Suc j"
      by (cases k) auto
    with "1.prems" have "n div 2 < 2 ^ j"
      by auto
    from "1.IH" [OF False this] False k show ?thesis
      by (subst bit_length.simps) simp
  qed
qed

lemma round_half_even_of_int: "round_half_even (of_int z) = z"
  by (simp add: round_half_even_def)

lemma to_double_of_nat:
  assumes "n < 2 ^ 53"
  shows "to_double (of_nat n) = of_nat n"
proof -
  let ?e = "bit_length n - 1"
  from bit_length_bound [OF assms] have e: "?e \<le> 52"
    by simp
  have "(of_nat n :: rat) * 2 ^ (52 - ?e) = of_int (int (n * 2 ^ (52 - ?e)))"
    by simp
  then have "round_half_even (of_nat n * 2 ^ (52 - ?e)) = int (n * 2 ^ (52 - ?e))"
    by (simp only: round_half_even_of_int)
  with e show ?thesis
    by (simp add: to_double_def)
qed

lemma random_component_grid:
  assumes "n < 4294967296" "math_random env = of_nat n / 4294967296"
  shows "random_component env = show_base36 (n + 1)"
proof -
  have "math_random env * 4294967296 + 1 = (of_nat (n + 1) :: rat)"
    by (simp add: assms(2))
  moreover from assms(1) have "n + 1 < 2 ^ 53"
    by simp
  ultimately have "to_double (math_random env * 4294967296 + 1) = of_nat (n + 1)"
    by (simp only: to_double_of_nat)
  moreover have "render36 (fraction_digits env) (of_nat (n + 1)) = show_base36 (n + 1)"
    unfolding render36_def by (simp only: floor_of_nat nat_int of_int_of_nat_eq) simp
  moreover have "\<not> (of_nat (n + 1) :: rat) < 0"
    by simp
  ultimately show ?thesis
    by (simp only: random_component_def toString36_def if_False)
qed

text \<open>Different numbers have different base-36 numerals: a numeral can be read back.\<close>

lemma digit36_value:
  assumes "d < 36"
  shows "length (takeWhile (\<lambda>c. c \<noteq> digit36 d) ''0123456789abcdefghijklmnopqrstuvwxyz'') = d"
proof -
  let ?a = "''0123456789abcdefghijklmnopqrstuvwxyz''"
  have dist: "distinct ?a" by simp
  have len: "length ?a = 36" by simp
  have "takeWhile (\<lambda>c. c \<noteq> ?a ! d) ?a = take d ?a"
  proof (rule takeWhile_eq_take_P_nth)
    fix i assume "i < d" "i < length ?a"
    with assms dist len show "?a ! i \<noteq> ?a ! d"
      by (simp only: nth_eq_iff_index_eq)
  next
    show "\<not> ?a ! d \<noteq> ?a ! d" by simp
  qed
  with assms len show ?thesis
    by (simp only: digit36_def mod_less length_take)
qed

lemma show_base36_read_back:
  "foldl (\<lambda>acc c. acc * 36 +
       length (takeWhile (\<lambda>x. x \<noteq> c) ''0123456789abcdefghijklmnopqrstuvwxyz'')) 0
     (show_base36 n) = n"
proof (induction n rule: show_base36.induct)
  case (1 n)
  have d: "digit36 n = digit36 (n mod 36)"
    by (simp add: digit36_def)
  show ?case
  proof (cases "n < 36")
    case True
    with digit36_value [of n] show ?thesis
      by (subst show_base36.simps) simp
  next
    case False
    with 1 digit36_value [of "n mod 36"] d show ?thesis
      by (subst show_base36.simps) simp
  qed
qed

lemma show_base36_inj: "show_base36 m = show_base36 n \<Longrightarrow> m = n"
  using show_base36_read_back [of m] show_base36_read_back [of n] by simp

text \<open>
  Claim C8, as stated, promises for every prefix a path inside the temporary directory
  whose last segment begins with the prefix. It fails for a prefix with a path separator:
  with the prefix \<open>../\<close> and the temporary directory \<open>/tmp\<close> the path lies outside
  \<open>/tmp\<close>, and its last segment does not contain the prefix.
\<close>

theorem makeTemporaryPath_prefix_escapes:
  "makeTemporaryPath
     \<lparr>tmpDir = ''/tmp'', pid = 4242, getYear = 113, getMonth = 5, getDate = 17,
      math_random = 4294967295 / 4294967296, fraction_digits = (\<lambda>x. [])\<rparr> (Some ''../'') = ''/113517-4242-1z141z4''
   \<and> take 5 (makeTemporaryPath
     \<lparr>tmpDir = ''/tmp'', pid = 4242, getYear = 113, getMonth = 5, getDate = 17,
      math_random = 4294967295 / 4294967296, fraction_digits = (\<lambda>x. [])\<rparr> (Some ''../'')) \<noteq> ''/tmp/''"
  by (simp add: makeTemporaryPath_def path_join_def normalize_def normalizeArray_def
      normalize_step_def show_int_def show_nat.simps digit_def
      random_component_def toString36_def render36_def to_double_def round_half_even_def
      bit_length.simps show_base36.simps digit36_def)

text \<open>
  Claim C8, amended. For every optional prefix that contains no path separator,
  \<^verbatim>\<open>makeTemporaryPath\<close> returns a path inside the platform temporary directory: the
  directory as \<^verbatim>\<open>path.join\<close> normalises it, followed by one final name. The name is the
  concatenation of the prefix (empty if absent), the date component (the decimal numbers
  \<^verbatim>\<open>getYear()\<close>, \<^verbatim>\<open>getMonth()\<close> and \<^verbatim>\<open>getDate()\<close>, which do not depend on a locale), a
  hyphen, the process identifier, a hyphen, and the random component. The random
  component is \<^verbatim>\<open>Math.random()\<close> scaled by \<open>2 ^ 32\<close>, plus 1, rendered by \<^verbatim>\<open>toString(36)\<close>:
  each of the \<open>2 ^ 32\<close> draws \<open>n / 2 ^ 32\<close> gives the base-36 numeral of \<open>n + 1\<close>, and
  different numbers have different numerals, so the component takes at least \<open>2 ^ 32\<close>
  values (32 bits).
\<close>

theorem makeTemporaryPath_in_tmpDir:
  "(CHR ''/'' \<notin> set pre \<longrightarrow>
      makeTemporaryPath env (Some pre) =
        (if is_absolute (tmpDir env) then ''/'' else []) @
        join_with ''/'' (directory_segments (tmpDir env) @
          [pre @ show_int (getYear env) @ show_nat (getMonth env) @ show_nat (getDate env)
             @ ''-'' @ show_nat (pid env) @ ''-'' @ random_component env]))
   \<and> makeTemporaryPath env None =
        (if is_absolute (tmpDir env) then ''/'' else []) @
        join_with ''/'' (directory_segments (tmpDir env) @
          [show_int (getYear env) @ show_nat (getMonth env) @ show_nat (getDate env)
             @ ''-'' @ show_nat (pid env) @ ''-'' @ random_component env])
   \<and> random_component env =
        toString36 (fraction_digits env) (to_double (math_random env * 4294967296 + 1))
   \<and> (n < 4294967296 \<and> math_random env = of_nat n / 4294967296 \<longrightarrow>
        random_component env = show_base36 (n + 1))
   \<and> (show_base36 m = show_base36 n \<longrightarrow> m = n)"
proof -
  have A: "makeTemporaryPath env prefix =
      (if is_absolute (tmpDir env) then ''/'' else []) @
      join_with ''/'' (directory_segments (tmpDir env) @
        [temporary_name env (case prefix of None \<Rightarrow> [] | Some p \<Rightarrow> p)])"
    if "CHR ''/'' \<notin> set (case prefix of None \<Rightarrow> [] | Some p \<Rightarrow> p)" for prefix
  proof -
    from that
    have "plain_segment (temporary_name env (case prefix of None \<Rightarrow> [] | Some p \<Rightarrow> p))"
      by (rule temporary_name_plain)
    from path_join_directory [OF this] show ?thesis
      by (simp only: makeTemporaryPath_name)
  qed
  have B: "random_component env = show_base36 (n + 1)"
    if "n < 4294967296 \<and> math_random env = of_nat n / 4294967296"
    using that random_component_grid [of n env] by blast
  have C: "m = n" if "show_base36 m = show_base36 n"
    using that by (rule show_base36_inj)
  from A [of "Some pre"] A [of None] B C show ?thesis
    by (simp add: temporary_name_def random_component_def)
qed

theorem makeTemporaryPath_in_tmpDir_witness:
  "makeTemporaryPath
     \<lparr>tmpDir = ''/tmp'', pid = 4242, getYear = 113, getMonth = 5, getDate = 17,
      math_random = 4294967295 / 4294967296, fraction_digits = (\<lambda>x. [])\<rparr> (Some ''up-'') = ''/tmp/up-113517-4242-1z141z4''
   \<and> makeTemporaryPath
     \<lparr>tmpDir = ''/tmp'', pid = 4242, getYear = 113, getMonth = 5, getDate = 17,
      math_random = 4294967295 / 4294967296, fraction_digits = (\<lambda>x. [])\<rparr> None = ''/tmp/113517-4242-1z141z4''
   \<and> random_component
     \<lparr>tmpDir = ''/tmp'', pid = 4242, getYear = 113, getMonth = 5, getDate = 17,
      math_random = 4294967295 / 4294967296, fraction_digits = (\<lambda>x. [])\<rparr> = ''1z141z4''"
proof -
  let ?env = "\<lparr>tmpDir = ''/tmp'', pid = 4242, getYear = 113, getMonth = 5, getDate = 17,
      math_random = 4294967295 / 4294967296, fraction_digits = (\<lambda>x. [])\<rparr>"
  note inst = makeTemporaryPath_in_tmpDir
    [where env = ?env and pre = "''up-''" and n = 4294967295 and m = 4294967295]
  from inst [THEN conjunct2, THEN conjunct2, THEN conjunct2, THEN conjunct1]
  have r: "random_component ?env = show_base36 (4294967295 + 1)"
    by simp
  from inst [THEN conjunct1] have "makeTemporaryPath ?env (Some ''up-'') =
      ''/tmp/up-113517-4242-'' @ random_component ?env"
    by (simp add: is_absolute_def directory_segments_def normalizeArray_def normalize_step_def
        show_int_def show_nat.simps digit_def)
  moreover from inst [THEN conjunct2, THEN conjunct1] have "makeTemporaryPath ?env None =
      ''/tmp/113517-4242-'' @ random_component ?env"
    by (simp add: is_absolute_def directory_segments_def normalizeArray_def normalize_step_def
        show_int_def show_nat.simps digit_def)
  moreover have "show_base36 (4294967295 + 1) = ''1z141z4''"
    by (simp add: show_base36.simps digit36_def)
  ultimately show ?thesis
    using r by simp
qed

end
